theory Spec2Isabelle
  imports Main "HOL-Library.Word" "HOL-Library.Multiset" "HOL-Library.AList"
begin

section \<open>Data model of the elasticsearch plugin\<close>

text \<open>
  The embedding follows \<^verbatim>\<open>plugins/elasticsearch_plugin/elasticsearch_plugin.cpp\<close>.
  A chain \<^verbatim>\<open>name\<close> is a 64-bit integer; \<^verbatim>\<open>account_name\<close>, \<^verbatim>\<open>action_name\<close> and
  \<^verbatim>\<open>permission_name\<close> are aliases of it. The value 0 is the empty name, which the filter
  uses as its wildcard.
\<close>

type_synonym name = "64 word"
type_synonym account_name = name
type_synonym action_name = name
type_synonym permission_name = name
type_synonym bytes = "8 word list"

text \<open>
  Modelled from the spec: the constants of the chain library (\<^verbatim>\<open>chain::config\<close> and the
  native action types) are not among the sources. The system account of the glossary is
  \<^verbatim>\<open>eosio\<close>; the four actions of section 4.4 are \<^verbatim>\<open>newaccount\<close>, \<^verbatim>\<open>setabi\<close>, \<^verbatim>\<open>updateauth\<close> and
  \<^verbatim>\<open>deleteauth\<close>, the two built-in permissions \<^verbatim>\<open>owner\<close> and \<^verbatim>\<open>active\<close>. Each constant is the
  64-bit value of the base-32 encoding of its name.
\<close>

definition system_account_name :: account_name where
  "system_account_name = 6138663577826885632"

definition newaccount_name :: action_name where
  "newaccount_name = 11148770977341390848"

definition setabi_name :: action_name where
  "setabi_name = 14029385431137648640"

definition updateauth_name :: action_name where
  "updateauth_name = 15371467950649982976"

definition deleteauth_name :: action_name where
  "deleteauth_name = 5378050746259030016"

definition owner_name :: permission_name where
  "owner_name = 12044502819693133824"

definition active_name :: permission_name where
  "active_name = 3617214756542218240"

record permission_level =
  actor :: account_name
  permission :: permission_name

record action =
  account :: account_name
  name :: action_name
  authorization :: "permission_level list"
  data :: bytes

text \<open>
  \<^verbatim>\<open>filter_entry\<close> is compared through its \<^verbatim>\<open>key()\<close>, the triple (receiver, action, actor);
  a \<^verbatim>\<open>std::set<filter_entry>\<close> is therefore a set of such triples and \<^verbatim>\<open>find(..) != end()\<close>
  is membership.
\<close>

type_synonym filter_entry = "name \<times> name \<times> name"

record filter_config =
  filter_on_star :: bool
  filter_on :: "filter_entry set"
  filter_out :: "filter_entry set"

section \<open>The action filter\<close>

text \<open>
  The first loop of \<^verbatim>\<open>filter_include\<close>: it sets \<^verbatim>\<open>include\<close> and breaks at the first
  authorizer whose triple is in \<^verbatim>\<open>filter_on\<close>.
\<close>

fun filter_on_loop :: "filter_entry set \<Rightarrow> action \<Rightarrow> permission_level list \<Rightarrow> bool" where
  "filter_on_loop F a [] = False"
| "filter_on_loop F a (p # ps) =
     (if (account a, name a, actor p) \<in> F then True else filter_on_loop F a ps)"

text \<open>
  The second loop: it returns false at the first authorizer whose triple is in
  \<^verbatim>\<open>filter_out\<close>; the value here is whether the loop ran to its end.
\<close>

fun filter_out_loop :: "filter_entry set \<Rightarrow> action \<Rightarrow> permission_level list \<Rightarrow> bool" where
  "filter_out_loop F a [] = True"
| "filter_out_loop F a (p # ps) =
     (if (account a, name a, actor p) \<in> F then False else filter_out_loop F a ps)"

definition filter_include :: "('a filter_config_scheme) \<Rightarrow> action \<Rightarrow> bool" where
  "filter_include s a =
     (let include =
        (if filter_on_star s \<or> (account a, name a, 0) \<in> filter_on s then True
         else filter_on_loop (filter_on s) a (authorization a))
      in if \<not> include then False
         else if (account a, 0, 0) \<in> filter_out s then False
         else if (account a, name a, 0) \<in> filter_out s then False
         else filter_out_loop (filter_out s) a (authorization a))"

text \<open>The two halves of the filter, in the words of the specification.\<close>

definition candidate :: "('a filter_config_scheme) \<Rightarrow> action \<Rightarrow> bool" where
  "candidate s a \<longleftrightarrow>
     filter_on_star s \<or> (account a, name a, 0) \<in> filter_on s \<or>
     (\<exists>x \<in> set (authorization a). (account a, name a, actor x) \<in> filter_on s)"

definition dropped :: "('a filter_config_scheme) \<Rightarrow> action \<Rightarrow> bool" where
  "dropped s a \<longleftrightarrow>
     (account a, 0, 0) \<in> filter_out s \<or> (account a, name a, 0) \<in> filter_out s \<or>
     (\<exists>x \<in> set (authorization a). (account a, name a, actor x) \<in> filter_out s)"

section \<open>Chain data read by the plugin\<close>

text \<open>
  Only the fields the plugin reads are kept. Several C++ structs have a member called
  \<^verbatim>\<open>name\<close>, \<^verbatim>\<open>account\<close> or \<^verbatim>\<open>permission\<close>; since record fields share one name space here,
  the payload structs carry a prefix.
\<close>

record key_weight =
  key :: string

record permission_level_weight =
  plw_permission :: permission_level

record authority =
  keys :: "key_weight list"
  accounts :: "permission_level_weight list"

record newaccount =
  creator :: account_name
  newaccount_account :: account_name
  owner :: authority
  active :: authority

record updateauth =
  updateauth_account :: account_name
  updateauth_permission :: permission_name
  auth :: authority

record deleteauth =
  deleteauth_account :: account_name
  deleteauth_permission :: permission_name

record setabi =
  setabi_account :: account_name
  setabi_abi :: bytes

record field_def =
  field_name :: string
  field_type :: string

record struct_def =
  struct_name :: string
  struct_fields :: "field_def list"

record abi_def =
  version :: string
  structs :: "struct_def list"

text \<open>
  An \<^verbatim>\<open>abi_serializer\<close> is determined by the ABI given to \<^verbatim>\<open>set_abi\<close> and by the type names
  for which \<^verbatim>\<open>add_specialized_unpack_pack\<close> registered a special decoder.
\<close>

record abi_serializer =
  serializer_abi :: abi_def
  specialized_unpack :: "string list"

record action_receipt =
  receiver :: account_name

datatype action_trace =
  Action_trace (receipt: action_receipt) (act: action) (inline_traces: "action_trace list")

datatype status_enum = executed | soft_fail | hard_fail | delayed | expired

record transaction_receipt_header =
  status :: status_enum

text \<open>
  \<^verbatim>\<open>transaction_trace::id\<close> and \<^verbatim>\<open>transaction_trace::receipt\<close> (an optional) are renamed, the
  first because \<open>id\<close> is the identity function, the second because \<open>receipt\<close> is the field
  of an action trace.
\<close>

record transaction_trace =
  trace_id :: string
  trace_receipt :: "transaction_receipt_header option"
  action_traces :: "action_trace list"

record transaction =
  context_free_actions :: "action list"
  actions :: "action list"

datatype transaction_receipt_trx = Trx_id string | Packed transaction

record signed_block =
  previous :: string
  transactions :: "transaction_receipt_trx list"

record block_state =
  block_num :: "32 word"
  block_id :: string
  validated :: bool
  in_current_chain :: bool
  block :: signed_block

text \<open>
  The decoders of the chain library (\<^verbatim>\<open>action::data_as<T>\<close>, \<^verbatim>\<open>fc::raw::unpack<abi_def>\<close>)
  and the validation done by \<^verbatim>\<open>abi_serializer::set_abi\<close> are not part of the plugin. They
  are parameters of the model: \<open>None\<close> and \<open>False\<close> stand for the \<^verbatim>\<open>fc::exception\<close> the
  library throws on malformed input.
\<close>

record chain_lib =
  unpack_newaccount :: "bytes \<Rightarrow> newaccount option"
  unpack_updateauth :: "bytes \<Rightarrow> updateauth option"
  unpack_deleteauth :: "bytes \<Rightarrow> deleteauth option"
  unpack_setabi :: "bytes \<Rightarrow> setabi option"
  unpack_abi_def :: "bytes \<Rightarrow> abi_def option"
  set_abi :: "abi_def \<Rightarrow> bool"

section \<open>Variants\<close>

text \<open>
  \<^verbatim>\<open>fc::variant\<close>, the JSON-like value of which all documents and search results are made.
  \<open>Name_v n\<close> is the string \<^verbatim>\<open>n.to_string()\<close> (the conversion is injective, so the name
  itself is kept); \<open>Bytes_v b abis\<close> is the rendering of a binary action payload by
  \<^verbatim>\<open>abi_serializer::to_variant\<close> with the serializer the resolver returned (hexadecimal
  when there is none).
\<close>

datatype variant =
    Null_v
  | Int_v int
  | Bool_v bool
  | String_v string
  | Name_v name
  | Abi_def_v abi_def
  | Bytes_v bytes "abi_serializer option"
  | Array_v "variant list"
  | Object_v "(string \<times> variant) list"

text \<open>
  \<^verbatim>\<open>variant::operator[](const char*)\<close> throws \<^verbatim>\<open>key_not_found_exception\<close> for a missing key
  and \<^verbatim>\<open>bad_cast_exception\<close> on a value that is not an object; both are \<^verbatim>\<open>fc::exception\<close>s
  and are \<open>None\<close> here. (The \<^verbatim>\<open>try\<close>/\<^verbatim>\<open>catch\<close> around \<^verbatim>\<open>res["_source"]["abi"]\<close> in
  \<^verbatim>\<open>search_abi_by_account\<close> relies on that.)
\<close>

fun get_key :: "variant \<Rightarrow> string \<Rightarrow> variant option" where
  "get_key (Object_v kvs) k = map_of kvs k"
| "get_key _ k = None"

fun get_index :: "variant \<Rightarrow> nat \<Rightarrow> variant option" where
  "get_index (Array_v xs) i = (if i < length xs then Some (xs ! i) else None)"
| "get_index _ i = None"

fun as_string :: "variant \<Rightarrow> string option" where
  "as_string (String_v x) = Some x"
| "as_string _ = None"

fun as_abi_def :: "variant \<Rightarrow> abi_def option" where
  "as_abi_def (Abi_def_v a) = Some a"
| "as_abi_def _ = None"

section \<open>The search client\<close>

definition block_states_type :: string where "block_states_type = ''block_states''"
definition blocks_type :: string where "blocks_type = ''blocks''"
definition trans_type :: string where "trans_type = ''transactions''"
definition trans_traces_type :: string where "trans_traces_type = ''transaction_traces''"
definition action_traces_type :: string where "action_traces_type = ''action_traces''"
definition accounts_type :: string where "accounts_type = ''accounts''"
definition pub_keys_type :: string where "pub_keys_type = ''pub_keys''"
definition account_controls_type :: string where "account_controls_type = ''account_controls''"

text \<open>
  The two query shapes the plugin builds with \<^verbatim>\<open>boost::format\<close>: a single \<^verbatim>\<open>term\<close> and a
  \<^verbatim>\<open>bool\<close>/\<^verbatim>\<open>must\<close> of terms.
\<close>

datatype query = Term_query string variant | Bool_must_query "(string \<times> variant) list"

record stored_doc =
  doc_type :: string
  doc_id :: string
  doc_source :: variant

text \<open>
  Modelled from the spec: \<^verbatim>\<open>elasticsearch_client\<close> (\<^verbatim>\<open>elasticsearch_client.hpp\<close>) is not among
  the sources. Following section 4.1 of the specification it is a document store:
  \<^verbatim>\<open>index(type, doc, id?)\<close> upserts when an id is given and creates a new document
  otherwise, \<^verbatim>\<open>bulk\<close> is its batch variant, \<^verbatim>\<open>delete_by_query\<close> removes the matching documents
  and \<^verbatim>\<open>search(type, query)\<close> returns the backend's hit shape, \<^verbatim>\<open>hits.total\<close> and
  \<^verbatim>\<open>hits.hits[..]\<close> with \<^verbatim>\<open>_id\<close> and \<^verbatim>\<open>_source\<close>. Every call is modelled in its successful
  outcome, visible at once to later searches; a failing call ends in the fatal handler
  \<^verbatim>\<open>handle_elasticsearch_exception\<close>, which asks the host to quit.
\<close>

record elasticsearch_client =
  client_index_name :: string
  docs :: "stored_doc list"
  auto_ids :: nat

fun matches :: "query \<Rightarrow> variant \<Rightarrow> bool" where
  "matches (Term_query k v) src = (get_key src k = Some v)"
| "matches (Bool_must_query kvs) src = list_all (\<lambda>(k, v). get_key src k = Some v) kvs"

definition auto_id :: "nat \<Rightarrow> string" where
  "auto_id n = ''auto-'' @ replicate n (CHR ''i'')"

definition hit_of :: "elasticsearch_client \<Rightarrow> stored_doc \<Rightarrow> variant" where
  "hit_of c d = Object_v [(''_index'', String_v (client_index_name c)),
     (''_type'', String_v (doc_type d)), (''_id'', String_v (doc_id d)),
     (''_source'', doc_source d)]"

definition hits_of :: "elasticsearch_client \<Rightarrow> string \<Rightarrow> query \<Rightarrow> stored_doc list" where
  "hits_of c t q = filter (\<lambda>d. doc_type d = t \<and> matches q (doc_source d)) (docs c)"

definition client_search :: "elasticsearch_client \<Rightarrow> string \<Rightarrow> query \<Rightarrow> variant" where
  "client_search c t q =
     Object_v [(''hits'', Object_v [(''total'', Int_v (int (length (hits_of c t q)))),
       (''hits'', Array_v (map (hit_of c) (hits_of c t q)))])]"

definition client_index ::
  "elasticsearch_client \<Rightarrow> string \<Rightarrow> variant \<Rightarrow> string option \<Rightarrow> elasticsearch_client" where
  "client_index c t src i =
     (case i of
        None \<Rightarrow> c\<lparr>docs := docs c @ [\<lparr>doc_type = t, doc_id = auto_id (auto_ids c), doc_source = src\<rparr>],
                  auto_ids := Suc (auto_ids c)\<rparr>
      | Some j \<Rightarrow>
          if \<exists>d \<in> set (docs c). doc_type d = t \<and> doc_id d = j
          then c\<lparr>docs := map (\<lambda>d. if doc_type d = t \<and> doc_id d = j then d\<lparr>doc_source := src\<rparr> else d)
                           (docs c)\<rparr>
          else c\<lparr>docs := docs c @ [\<lparr>doc_type = t, doc_id = j, doc_source = src\<rparr>]\<rparr>)"

definition client_bulk ::
  "elasticsearch_client \<Rightarrow> (string \<times> variant) list \<Rightarrow> elasticsearch_client" where
  "client_bulk c items = foldl (\<lambda>c' (t, src). client_index c' t src None) c items"

definition client_delete_by_query ::
  "elasticsearch_client \<Rightarrow> string \<Rightarrow> query \<Rightarrow> elasticsearch_client" where
  "client_delete_by_query c t q =
     c\<lparr>docs := filter (\<lambda>d. \<not> (doc_type d = t \<and> matches q (doc_source d))) (docs c)\<rparr>"

section \<open>The state of the plugin\<close>

text \<open>
  \<^verbatim>\<open>abi_cache\<close>, the element of the multi-index container; its member \<^verbatim>\<open>account\<close> is
  \<open>cache_account\<close> here. Time points are microseconds since the epoch.
\<close>

record abi_cache =
  cache_account :: account_name
  last_accessed :: int
  serializer :: "abi_serializer option"

text \<open>
  A record of what the plugin did, in program order: each call of the search client with
  its arguments, each call of \<^verbatim>\<open>update_account\<close> and each \<^verbatim>\<open>abi_cache_index.erase\<close>. It is
  not a member of the C++ class; the claims about what is invoked or written, and in which
  order, are stated on it.
\<close>

datatype event =
    Called_update_account action
  | Cache_erase account_name
  | Search string query
  | Index string variant "string option"
  | Bulk "(string \<times> variant) list"
  | Delete_by_query string query

text \<open>
  The members of \<^verbatim>\<open>elasticsearch_plugin_impl\<close> that the modelled functions touch.
  \<open>abi_cache_index\<close> is the container in the order of its \<^verbatim>\<open>by_last_access\<close> index; the
  \<^verbatim>\<open>by_account\<close> index is a lookup in that list. \<^verbatim>\<open>fc::time_point::now()\<close> reads an external
  clock: \<open>clock\<close> is the sequence of values it returns and \<open>ticks\<close> counts the reads so far.
\<close>

record impl = filter_config +
  start_block_num :: "32 word"
  start_block_reached :: bool
  store_blocks :: bool
  store_block_states :: bool
  store_transactions :: bool
  store_transaction_traces :: bool
  store_action_traces :: bool
  index_name :: string
  abi_cache_size :: nat
  abi_cache_index :: "abi_cache list"
  elastic_client :: elasticsearch_client
  clock :: "nat \<Rightarrow> int"
  ticks :: nat
  effects :: "event list"

definition time_point_now :: "impl \<Rightarrow> int \<times> impl" where
  "time_point_now s = (clock s (ticks s), s\<lparr>ticks := Suc (ticks s)\<rparr>)"

text \<open>
  \<^verbatim>\<open>duration_cast<milliseconds>(microseconds{..})\<close> truncates towards zero.
\<close>

definition to_milliseconds :: "int \<Rightarrow> int" where
  "to_milliseconds us = (if 0 \<le> us then us div 1000 else - ((- us) div 1000))"

definition now_milliseconds :: "impl \<Rightarrow> int \<times> impl" where
  "now_milliseconds s = (let (t, s1) = time_point_now s in (to_milliseconds t, s1))"

text \<open>The calls of the client, each recorded in \<open>effects\<close>.\<close>

definition es_index :: "string \<Rightarrow> variant \<Rightarrow> string option \<Rightarrow> impl \<Rightarrow> impl" where
  "es_index t src i s =
     s\<lparr>elastic_client := client_index (elastic_client s) t src i,
       effects := effects s @ [Index t src i]\<rparr>"

definition es_bulk_perform :: "(string \<times> variant) list \<Rightarrow> impl \<Rightarrow> impl" where
  "es_bulk_perform items s =
     s\<lparr>elastic_client := client_bulk (elastic_client s) items,
       effects := effects s @ [Bulk items]\<rparr>"

definition es_delete_by_query :: "string \<Rightarrow> query \<Rightarrow> impl \<Rightarrow> impl" where
  "es_delete_by_query t q s =
     s\<lparr>elastic_client := client_delete_by_query (elastic_client s) t q,
       effects := effects s @ [Delete_by_query t q]\<rparr>"

definition es_search :: "string \<Rightarrow> query \<Rightarrow> impl \<Rightarrow> variant \<times> impl" where
  "es_search t q s =
     (client_search (elastic_client s) t q, s\<lparr>effects := effects s @ [Search t q]\<rparr>)"

section \<open>The ABI cache\<close>

text \<open>
  A function of the plugin either returns or lets an \<^verbatim>\<open>fc::exception\<close> escape to its
  caller.
\<close>

datatype 'a attempt = Returned 'a | Thrown

text \<open>
  The container operations on the \<^verbatim>\<open>by_last_access\<close> order. An ordered non-unique index
  links a new element behind the elements whose key is not greater (\<^verbatim>\<open>link_point\<close>).
\<close>

fun link_by_last_access :: "abi_cache \<Rightarrow> abi_cache list \<Rightarrow> abi_cache list" where
  "link_by_last_access e [] = [e]"
| "link_by_last_access e (x # xs) =
     (if last_accessed e < last_accessed x then e # x # xs
      else x # link_by_last_access e xs)"

definition cache_find :: "account_name \<Rightarrow> abi_cache list \<Rightarrow> abi_cache option" where
  "cache_find n c = find (\<lambda>e. cache_account e = n) c"

text \<open>\<^verbatim>\<open>insert\<close> fails when the unique \<^verbatim>\<open>by_account\<close> index already has the key.\<close>

definition cache_insert :: "abi_cache \<Rightarrow> abi_cache list \<Rightarrow> abi_cache list" where
  "cache_insert e c =
     (if cache_find (cache_account e) c \<noteq> None then c else link_by_last_access e c)"

definition cache_erase :: "account_name \<Rightarrow> abi_cache list \<Rightarrow> abi_cache list" where
  "cache_erase n c = filter (\<lambda>e. cache_account e \<noteq> n) c"

text \<open>
  \<^verbatim>\<open>modify\<close> with the functor that sets \<^verbatim>\<open>last_accessed\<close>: the element stays where it is
  when its new key still fits between its neighbours (\<^verbatim>\<open>in_place\<close>), and is unlinked and
  linked again otherwise.
\<close>

definition cache_modify :: "account_name \<Rightarrow> int \<Rightarrow> abi_cache list \<Rightarrow> abi_cache list" where
  "cache_modify n t c =
     (let before = takeWhile (\<lambda>e. cache_account e \<noteq> n) c;
          rest = dropWhile (\<lambda>e. cache_account e \<noteq> n) c
      in case rest of
           [] \<Rightarrow> c
         | e # after \<Rightarrow>
             (let e' = e\<lparr>last_accessed := t\<rparr>;
                  in_place = ((before = [] \<or> \<not> t < last_accessed (last before)) \<and>
                              (after = [] \<or> \<not> last_accessed (hd after) < t))
              in if in_place then before @ e' # after
                 else link_by_last_access e' (before @ after)))"

definition purge_abi_cache :: "impl \<Rightarrow> impl" where
  "purge_abi_cache s =
     (if length (abi_cache_index s) < abi_cache_size s then s
      else case abi_cache_index s of
             [] \<Rightarrow> s
           | e # rest \<Rightarrow> s\<lparr>abi_cache_index := rest\<rparr>)"

section \<open>Looking up accounts\<close>

text \<open>
  \<^verbatim>\<open>find_account\<close>: \<open>Returned (Some v)\<close> is the result true with the out-parameter set to
  the first hit, \<open>Returned None\<close> the result false. The search call is outside any
  \<^verbatim>\<open>try\<close>. \<^verbatim>\<open>search_abi_by_account\<close> takes the account as the string \<^verbatim>\<open>n.to_string()\<close>, which
  the call of \<^verbatim>\<open>find_account\<close> converts back to the name; it is the name here.
\<close>

definition find_account :: "account_name \<Rightarrow> impl \<Rightarrow> variant option attempt \<times> impl" where
  "find_account n s =
     (let (res, s1) = es_search accounts_type (Term_query ''name'' (Name_v n)) s
      in case Option.bind (get_key res ''hits'') (\<lambda>h. get_key h ''total'') of
           None \<Rightarrow> (Thrown, s1)
         | Some tot \<Rightarrow>
             if tot \<noteq> Int_v 1 then (Returned None, s1)
             else (case Option.bind (Option.bind (get_key res ''hits'') (\<lambda>h. get_key h ''hits''))
                          (\<lambda>hs. get_index hs 0) of
                     None \<Rightarrow> (Thrown, s1)
                   | Some v \<Rightarrow> (Returned (Some v), s1)))"

definition search_abi_by_account :: "account_name \<Rightarrow> impl \<Rightarrow> variant option attempt \<times> impl" where
  "search_abi_by_account n s =
     (case find_account n s of
        (Thrown, s1) \<Rightarrow> (Thrown, s1)
      | (Returned None, s1) \<Rightarrow> (Returned None, s1)
      | (Returned (Some res), s1) \<Rightarrow>
          (case Option.bind (get_key res ''_source'') (\<lambda>src. get_key src ''abi'') of
             None \<Rightarrow> (Returned None, s1)
           | Some v \<Rightarrow> (Returned (Some v), s1)))"

text \<open>
  The rewriting of the system ABI in \<^verbatim>\<open>get_abi_serializer\<close>: the first struct called
  \<^verbatim>\<open>setabi\<close>, its first field called \<^verbatim>\<open>abi\<close>; when that field has type \<^verbatim>\<open>bytes\<close> the type
  becomes \<^verbatim>\<open>abi_def\<close> and a specialised decoder for \<^verbatim>\<open>abi_def\<close> is registered (the flag).
\<close>

fun redefine_abi_field :: "field_def list \<Rightarrow> field_def list \<times> bool" where
  "redefine_abi_field [] = ([], False)"
| "redefine_abi_field (f # fs) =
     (if field_name f = ''abi''
      then (if field_type f = ''bytes'' then (f\<lparr>field_type := ''abi_def''\<rparr> # fs, True)
            else (f # fs, False))
      else (let (fs', b) = redefine_abi_field fs in (f # fs', b)))"

fun redefine_setabi :: "struct_def list \<Rightarrow> struct_def list \<times> bool" where
  "redefine_setabi [] = ([], False)"
| "redefine_setabi (st # sts) =
     (if struct_name st = ''setabi''
      then (let (fs', b) = redefine_abi_field (struct_fields st)
            in (st\<lparr>struct_fields := fs'\<rparr> # sts, b))
      else (let (sts', b) = redefine_setabi sts in (st # sts', b)))"

text \<open>\<^verbatim>\<open>name::good()\<close> of the chain library: the name is not empty.\<close>

definition good :: "name \<Rightarrow> bool" where
  "good n \<longleftrightarrow> n \<noteq> 0"

text \<open>
  \<^verbatim>\<open>get_abi_serializer\<close>. \<^verbatim>\<open>FC_CAPTURE_AND_LOG\<close> catches everything thrown inside, after which
  the function returns the empty optional; this is the case for a throwing
  \<^verbatim>\<open>find_account\<close> and for an ABI that \<^verbatim>\<open>set_abi\<close> rejects (then \<^verbatim>\<open>purge_abi_cache\<close> has run
  and the clock has been read, but nothing is inserted).
\<close>

definition get_abi_serializer ::
  "chain_lib \<Rightarrow> account_name \<Rightarrow> impl \<Rightarrow> abi_serializer option \<times> impl" where
  "get_abi_serializer L n s =
     (if good n then
        (case cache_find n (abi_cache_index s) of
           Some entry \<Rightarrow>
             (let (t, s1) = time_point_now s
              in (serializer entry, s1\<lparr>abi_cache_index := cache_modify n t (abi_cache_index s1)\<rparr>))
         | None \<Rightarrow>
             (case search_abi_by_account n s of
                (Thrown, s1) \<Rightarrow> (None, s1)
              | (Returned None, s1) \<Rightarrow> (None, s1)
              | (Returned (Some abi_v), s1) \<Rightarrow>
                  (case as_abi_def abi_v of
                     None \<Rightarrow> (None, s1)
                   | Some abi \<Rightarrow>
                       (let s2 = purge_abi_cache s1;
                            (t, s3) = time_point_now s2;
                            (abi', abis) =
                              (if n = system_account_name
                               then (let (sts, b) = redefine_setabi (structs abi)
                                     in (abi\<lparr>structs := sts\<rparr>, if b then [''abi_def''] else []))
                               else (abi, []))
                        in if set_abi L abi'
                           then (let entry = \<lparr>cache_account = n, last_accessed = t,
                                       serializer = Some \<lparr>serializer_abi = abi',
                                                           specialized_unpack = abis\<rparr>\<rparr>
                                 in (serializer entry,
                                     s3\<lparr>abi_cache_index := cache_insert entry (abi_cache_index s3)\<rparr>))
                           else (None, s3)))))
      else (None, s))"

section \<open>Rendering chain objects with their ABIs\<close>

text \<open>
  \<^verbatim>\<open>to_variant_with_abi\<close> hands \<^verbatim>\<open>get_abi_serializer\<close> to \<^verbatim>\<open>abi_serializer::to_variant\<close>, which
  calls it with the account of every action it meets, in the order of the reflected
  members. Where the plugin copies the result into a \<^verbatim>\<open>mutable_variant_object\<close> with
  \<^verbatim>\<open>fc::from_variant\<close>, the function here returns the entries of that object;
  \<^verbatim>\<open>doc[key] = value\<close> on such an object is \<open>AList.update\<close>.
\<close>

type_synonym mutable_variant_object = "(string \<times> variant) list"

definition permission_level_variant :: "permission_level \<Rightarrow> variant" where
  "permission_level_variant p =
     Object_v [(''actor'', Name_v (actor p)), (''permission'', Name_v (permission p))]"

definition action_variant :: "chain_lib \<Rightarrow> action \<Rightarrow> impl \<Rightarrow> variant \<times> impl" where
  "action_variant L a s =
     (let (abis, s1) = get_abi_serializer L (account a) s
      in (Object_v [(''account'', Name_v (account a)), (''name'', Name_v (name a)),
            (''authorization'', Array_v (map permission_level_variant (authorization a))),
            (''data'', Bytes_v (data a) abis)], s1))"

fun actions_variant :: "chain_lib \<Rightarrow> action list \<Rightarrow> impl \<Rightarrow> variant list \<times> impl" where
  "actions_variant L [] s = ([], s)"
| "actions_variant L (a # as) s =
     (let (v, s1) = action_variant L a s;
          (vs, s2) = actions_variant L as s1
      in (v # vs, s2))"

definition receipt_variant :: "action_receipt \<Rightarrow> variant" where
  "receipt_variant r = Object_v [(''receiver'', Name_v (receiver r))]"

text \<open>A \<^verbatim>\<open>base_action_trace\<close>: the action trace without its inline traces.\<close>

definition base_action_trace_variant ::
  "chain_lib \<Rightarrow> action_trace \<Rightarrow> impl \<Rightarrow> mutable_variant_object \<times> impl" where
  "base_action_trace_variant L atrace s =
     (let (v, s1) = action_variant L (act atrace) s
      in ([(''receipt'', receipt_variant (receipt atrace)), (''act'', v)], s1))"

fun action_trace_variant :: "chain_lib \<Rightarrow> action_trace \<Rightarrow> impl \<Rightarrow> variant \<times> impl"
  and action_traces_variant :: "chain_lib \<Rightarrow> action_trace list \<Rightarrow> impl \<Rightarrow> variant list \<times> impl"
where
  "action_trace_variant L (Action_trace r a inl) s =
     (let (v, s1) = action_variant L a s;
          (vs, s2) = action_traces_variant L inl s1
      in (Object_v [(''receipt'', receipt_variant r), (''act'', v),
                    (''inline_traces'', Array_v vs)], s2))"
| "action_traces_variant L [] s = ([], s)"
| "action_traces_variant L (t # ts) s =
     (let (v, s1) = action_trace_variant L t s;
          (vs, s2) = action_traces_variant L ts s1
      in (v # vs, s2))"

definition status_variant :: "status_enum \<Rightarrow> variant" where
  "status_variant st =
     String_v (case st of executed \<Rightarrow> ''executed'' | soft_fail \<Rightarrow> ''soft_fail''
               | hard_fail \<Rightarrow> ''hard_fail'' | delayed \<Rightarrow> ''delayed'' | expired \<Rightarrow> ''expired'')"

definition transaction_trace_variant ::
  "chain_lib \<Rightarrow> transaction_trace \<Rightarrow> impl \<Rightarrow> mutable_variant_object \<times> impl" where
  "transaction_trace_variant L t s =
     (let (vs, s1) = action_traces_variant L (action_traces t) s
      in ([(''id'', String_v (trace_id t)),
           (''receipt'', (case trace_receipt t of None \<Rightarrow> Null_v
                          | Some r \<Rightarrow> Object_v [(''status'', status_variant (status r))])),
           (''action_traces'', Array_v vs)], s1))"

definition transaction_variant :: "chain_lib \<Rightarrow> transaction \<Rightarrow> impl \<Rightarrow> variant \<times> impl" where
  "transaction_variant L trx s =
     (let (cfa, s1) = actions_variant L (context_free_actions trx) s;
          (acts, s2) = actions_variant L (actions trx) s1
      in (Object_v [(''context_free_actions'', Array_v cfa), (''actions'', Array_v acts)], s2))"

fun receipts_variant ::
  "chain_lib \<Rightarrow> transaction_receipt_trx list \<Rightarrow> impl \<Rightarrow> variant list \<times> impl" where
  "receipts_variant L [] s = ([], s)"
| "receipts_variant L (Trx_id i # rs) s =
     (let (vs, s1) = receipts_variant L rs s in (String_v i # vs, s1))"
| "receipts_variant L (Packed trx # rs) s =
     (let (v, s1) = transaction_variant L trx s;
          (vs, s2) = receipts_variant L rs s1
      in (v # vs, s2))"

definition signed_block_variant :: "chain_lib \<Rightarrow> signed_block \<Rightarrow> impl \<Rightarrow> variant \<times> impl" where
  "signed_block_variant L b s =
     (let (vs, s1) = receipts_variant L (transactions b) s
      in (Object_v [(''previous'', String_v (previous b)), (''transactions'', Array_v vs)], s1))"

text \<open>The reflection of a block state, which involves no ABI.\<close>

definition block_header_state_variant :: "block_state \<Rightarrow> variant" where
  "block_header_state_variant bs =
     Object_v [(''id'', String_v (block_id bs)), (''block_num'', Int_v (uint (block_num bs)))]"

section \<open>The account projection\<close>

definition add_pub_keys ::
  "key_weight list \<Rightarrow> account_name \<Rightarrow> permission_name \<Rightarrow> int \<Rightarrow> impl \<Rightarrow> impl" where
  "add_pub_keys ks n perm now s =
     (if ks = [] then s
      else es_bulk_perform
             (map (\<lambda>pub_key_weight.
                     (pub_keys_type,
                      Object_v [(''account'', Name_v n),
                                (''public_key'', String_v (key pub_key_weight)),
                                (''permission'', Name_v perm),
                                (''createAt'', Int_v now)])) ks) s)"

definition remove_pub_keys :: "account_name \<Rightarrow> permission_name \<Rightarrow> impl \<Rightarrow> impl" where
  "remove_pub_keys n perm s =
     es_delete_by_query pub_keys_type
       (Bool_must_query [(''account'', Name_v n), (''permission'', Name_v perm)]) s"

definition add_account_control ::
  "permission_level_weight list \<Rightarrow> account_name \<Rightarrow> permission_name \<Rightarrow> int \<Rightarrow> impl \<Rightarrow> impl" where
  "add_account_control controlling_accounts n perm now s =
     (if controlling_accounts = [] then s
      else es_bulk_perform
             (map (\<lambda>controlling_account.
                     (account_controls_type,
                      Object_v [(''controlled_account'', Name_v n),
                                (''controlled_permission'', Name_v perm),
                                (''controlling_account'',
                                   Name_v (actor (plw_permission controlling_account))),
                                (''createAt'', Int_v now)])) controlling_accounts) s)"

definition remove_account_control :: "account_name \<Rightarrow> permission_name \<Rightarrow> impl \<Rightarrow> impl" where
  "remove_account_control n perm s =
     es_delete_by_query account_controls_type
       (Bool_must_query [(''controlled_account'', Name_v n),
                         (''controlled_permission'', Name_v perm)]) s"

definition create_account :: "account_name \<Rightarrow> int \<Rightarrow> impl \<Rightarrow> impl" where
  "create_account n now s =
     es_index accounts_type (Object_v [(''name'', Name_v n), (''createAt'', Int_v now)]) None s"

text \<open>
  The \<^verbatim>\<open>setabi\<close> branch of \<^verbatim>\<open>update_account\<close> after the payload has been decoded. Every
  \<open>None\<close> of a decoder or of a key lookup is an \<^verbatim>\<open>fc::exception\<close>, which the handler at
  the end of \<^verbatim>\<open>update_account\<close> swallows: the function returns with what has been done so
  far.
\<close>

definition update_account_setabi :: "chain_lib \<Rightarrow> setabi \<Rightarrow> int \<Rightarrow> impl \<Rightarrow> impl" where
  "update_account_setabi L sa now s =
     (let s1 = s\<lparr>abi_cache_index := cache_erase (setabi_account sa) (abi_cache_index s),
                 effects := effects s @ [Cache_erase (setabi_account sa)]\<rparr>
      in case find_account (setabi_account sa) s1 of
           (Thrown, s2) \<Rightarrow> s2
         | (Returned found, s2) \<Rightarrow>
             (let s3 = (if found = None then create_account (setabi_account sa) now s2 else s2)
              in case find_account (setabi_account sa) s3 of
                   (Thrown, s4) \<Rightarrow> s4
                 | (Returned None, s4) \<Rightarrow> s4
                 | (Returned (Some hit), s4) \<Rightarrow>
                     (case unpack_abi_def L (setabi_abi sa) of
                        None \<Rightarrow> s4
                      | Some abi \<Rightarrow>
                          (case get_key hit ''name'' of
                             None \<Rightarrow> s4
                           | Some nm \<Rightarrow>
                               (case get_key hit ''createAt'' of
                                  None \<Rightarrow> s4
                                | Some created \<Rightarrow>
                                    (case Option.bind (get_key hit ''_id'') as_string of
                                       None \<Rightarrow> s4
                                     | Some i \<Rightarrow>
                                         es_index accounts_type
                                           (Object_v [(''name'', nm), (''abi'', Abi_def_v abi),
                                                      (''updateAt'', Int_v now),
                                                      (''createAt'', created)])
                                           (Some i) s4))))))"

text \<open>
  \<^verbatim>\<open>update_account\<close>. The first step records the call; the rest follows the source. In the
  branches that read the clock, the clock is read before the payload is decoded.
\<close>

definition update_account :: "chain_lib \<Rightarrow> action \<Rightarrow> impl \<Rightarrow> impl" where
  "update_account L a s0 =
     (let s = s0\<lparr>effects := effects s0 @ [Called_update_account a]\<rparr>
      in if account a \<noteq> system_account_name then s
         else if name a = newaccount_name then
           (let (now, s1) = now_milliseconds s
            in case unpack_newaccount L (data a) of
                 None \<Rightarrow> s1
               | Some newacc \<Rightarrow>
                   add_account_control (accounts (active newacc)) (newaccount_account newacc) active_name now
                     (add_pub_keys (keys (active newacc)) (newaccount_account newacc) active_name now
                       (add_account_control (accounts (owner newacc)) (newaccount_account newacc) owner_name now
                         (add_pub_keys (keys (owner newacc)) (newaccount_account newacc) owner_name now
                           (create_account (newaccount_account newacc) now s1)))))
         else if name a = updateauth_name then
           (let (now, s1) = now_milliseconds s
            in case unpack_updateauth L (data a) of
                 None \<Rightarrow> s1
               | Some update \<Rightarrow>
                   add_account_control (accounts (auth update)) (updateauth_account update)
                       (updateauth_permission update) now
                     (add_pub_keys (keys (auth update)) (updateauth_account update)
                         (updateauth_permission update) now
                       (remove_account_control (updateauth_account update) (updateauth_permission update)
                         (remove_pub_keys (updateauth_account update) (updateauth_permission update) s1))))
         else if name a = deleteauth_name then
           (case unpack_deleteauth L (data a) of
              None \<Rightarrow> s
            | Some del \<Rightarrow>
                remove_account_control (deleteauth_account del) (deleteauth_permission del)
                  (remove_pub_keys (deleteauth_account del) (deleteauth_permission del) s))
         else if name a = setabi_name then
           (let (now, s1) = now_milliseconds s
            in case unpack_setabi L (data a) of
                 None \<Rightarrow> s1
               | Some sa \<Rightarrow> update_account_setabi L sa now s1)
         else s)"

section \<open>Applied transaction traces\<close>

text \<open>
  The worker functions \<^verbatim>\<open>_process_applied_transaction\<close> and \<^verbatim>\<open>_process_accepted_block\<close> are
  \<open>process_applied_transaction'\<close> and \<open>process_accepted_block'\<close> here.
\<close>

text \<open>
  The bulk buffer \<^verbatim>\<open>SameIndexBulkData\<close> is the list of the documents added with
  \<^verbatim>\<open>indexDocument\<close>, each with its type. \<^verbatim>\<open>add_action_trace\<close> returns whether it added a
  document, together with the buffer and the state; \<open>add_inline_traces\<close> is its loop over
  the inline traces, with \<open>added\<close> the flag accumulated by \<^verbatim>\<open>|=\<close>. The parameter \<open>exec\<close>
  is the \<^verbatim>\<open>executed\<close> flag, which \<^verbatim>\<open>_process_applied_transaction\<close> computes from the receipt
  of the transaction and which is the same for every node.
\<close>

type_synonym bulk_data = "(string \<times> variant) list"

fun add_action_trace ::
  "chain_lib \<Rightarrow> action_trace \<Rightarrow> bool \<Rightarrow> int \<Rightarrow> bulk_data \<times> impl \<Rightarrow> bool \<times> bulk_data \<times> impl"
  and add_inline_traces ::
  "chain_lib \<Rightarrow> action_trace list \<Rightarrow> bool \<Rightarrow> int \<Rightarrow> bool \<times> bulk_data \<times> impl \<Rightarrow> bool \<times> bulk_data \<times> impl"
where
  "add_action_trace L (Action_trace r a inl) exec now (bulk, s) =
     (let s1 = (if exec \<and> receiver r = system_account_name then update_account L a s else s)
      in if start_block_reached s1 \<and> store_action_traces s1 \<and> filter_include s1 a
         then (let (base, s2) = base_action_trace_variant L (Action_trace r a inl) s1;
                   action_traces_doc = AList.update ''createdAt'' (Int_v now) base
               in add_inline_traces L inl exec now
                    (True, bulk @ [(action_traces_type, Object_v action_traces_doc)], s2))
         else add_inline_traces L inl exec now (False, bulk, s1))"
| "add_inline_traces L [] exec now r = r"
| "add_inline_traces L (t # ts) exec now (added, bulk, s) =
     (let (b, bulk1, s1) = add_action_trace L t exec now (bulk, s)
      in add_inline_traces L ts exec now (added \<or> b, bulk1, s1))"

text \<open>
  The loop of \<^verbatim>\<open>_process_applied_transaction\<close> over the top-level action traces, with
  \<open>write_atraces\<close> accumulated in the same way.
\<close>

definition transaction_executed :: "transaction_trace \<Rightarrow> bool" where
  "transaction_executed t \<longleftrightarrow>
     (case trace_receipt t of None \<Rightarrow> False | Some r \<Rightarrow> status r = executed)"

definition process_applied_transaction' :: "chain_lib \<Rightarrow> transaction_trace \<Rightarrow> impl \<Rightarrow> impl" where
  "process_applied_transaction' L t s0 =
     (let (now, s) = now_milliseconds s0;
          exec = transaction_executed t;
          (write_atraces, bulk_action_traces, s1) =
             add_inline_traces L (action_traces t) exec now (False, [], s);
          s2 = (if write_atraces then es_bulk_perform bulk_action_traces s1 else s1)
      in if \<not> start_block_reached s2 \<or> \<not> store_transaction_traces s2 then s2
         else if \<not> write_atraces then s2
         else (let (v, s3) = transaction_trace_variant L t s2;
                   trans_traces_doc = AList.update ''createAt'' (Int_v now) v
               in es_index trans_traces_type (Object_v trans_traces_doc) None s3))"

definition process_applied_transaction :: "chain_lib \<Rightarrow> transaction_trace \<Rightarrow> impl \<Rightarrow> impl" where
  "process_applied_transaction L t s =
     (if start_block_reached s then process_applied_transaction' L t s else s)"

section \<open>Accepted blocks\<close>

text \<open>
  \<^verbatim>\<open>static_cast<int32_t>(block_num)\<close> is the two's complement reading of the 32-bit block
  number.
\<close>

definition process_accepted_block' :: "chain_lib \<Rightarrow> block_state \<Rightarrow> impl \<Rightarrow> impl" where
  "process_accepted_block' L bs s0 =
     (let (now, s) = now_milliseconds s0;
          block_state_doc =
            Object_v [(''block_num'', Int_v (sint (block_num bs))),
                      (''block_id'', String_v (block_id bs)),
                      (''validated'', Bool_v (validated bs)),
                      (''in_current_chain'', Bool_v (in_current_chain bs)),
                      (''block_header_state'', block_header_state_variant bs),
                      (''createAt'', Int_v now)];
          s1 = es_index block_states_type block_state_doc None s
      in if \<not> store_blocks s1 then s1
         else (let (v, s2) = signed_block_variant L (block bs) s1;
                   block_doc =
                     Object_v [(''block_num'', Int_v (sint (block_num bs))),
                               (''block_id'', String_v (block_id bs)),
                               (''irreversible'', Bool_v False),
                               (''block'', v),
                               (''createAt'', Int_v now)]
               in es_index blocks_type block_doc None s2))"

definition process_accepted_block :: "chain_lib \<Rightarrow> block_state \<Rightarrow> impl \<Rightarrow> impl" where
  "process_accepted_block L bs s =
     (let s1 = (if \<not> start_block_reached s
                then (if block_num bs \<ge> start_block_num s then s\<lparr>start_block_reached := True\<rparr> else s)
                else s)
      in if start_block_reached s1 then process_accepted_block' L bs s1 else s1)"

section \<open>The staging queues\<close>

text \<open>
  The template function \<^verbatim>\<open>queue(Queue&, const Entry&)\<close> touches the queue it is given, the
  shared counter \<^verbatim>\<open>queue_sleep_time\<close> (a C++ \<^verbatim>\<open>int\<close> of milliseconds, here a 32-bit word read
  in two's complement, whose arithmetic wraps around) and the constant \<^verbatim>\<open>max_queue_size\<close>.

  \<open>steps\<close> records, in program order, what the producer does with the mutex, the condition
  variable, the log, the clock and the queue; it is not a member of the class. In the
  overflow branch the mutex is released while the producer sleeps, so the queue that the
  producer finds when it has the mutex again need not be the one it left: the parameter
  \<open>others\<close> of \<open>queue\<close> is what the other threads (the consumer, which moves the queue
  away, and other producers) make of the queue in the meantime. The counter is written by
  producers only; the function is modelled for the producer that runs it.
\<close>

datatype 'e step = Lock | Unlock | Notify_one | Wlog nat | Sleep_for int | Emplace_back 'e

record 'e staging =
  max_queue_size :: nat
  queue_sleep_time :: "32 word"
  entries :: "'e list"
  steps :: "'e step list"

definition queue :: "('e list \<Rightarrow> 'e list) \<Rightarrow> 'e \<Rightarrow> 'e staging \<Rightarrow> 'e staging" where
  "queue others e st0 =
     (let st = st0\<lparr>steps := steps st0 @ [Lock]\<rparr>;
          queue_size = length (entries st);
          st1 = (if queue_size > max_queue_size st
                 then (let t = queue_sleep_time st + 10
                       in st\<lparr>queue_sleep_time := t,
                             entries := others (entries st),
                             steps := steps st @ [Unlock, Notify_one] @
                               (if 1000 <s t then [Wlog queue_size] else []) @
                               [Sleep_for (sint t), Lock]\<rparr>)
                 else (let t = queue_sleep_time st - 10
                       in st\<lparr>queue_sleep_time := (if t <s 0 then 0 else t)\<rparr>))
      in st1\<lparr>entries := entries st1 @ [e],
              steps := steps st1 @ [Emplace_back e, Unlock, Notify_one]\<rparr>)"

text \<open>The steps recorded between a state and a later one.\<close>

definition steps_since :: "'e staging \<Rightarrow> 'e staging \<Rightarrow> 'e step list" where
  "steps_since st st' = drop (length (steps st)) (steps st')"

text \<open>
  The time a producer has spent sleeping, in milliseconds: \<^verbatim>\<open>sleep_for\<close> returns at once for
  a duration that is not positive.
\<close>

fun slept :: "'e step \<Rightarrow> int" where
  "slept (Sleep_for d) = max 0 d"
| "slept _ = 0"

definition cumulative_sleep :: "'e staging \<Rightarrow> int" where
  "cumulative_sleep st = sum_list (map slept (steps st))"

section \<open>Reading the record of effects\<close>

text \<open>
  The nodes of an action-trace tree in the order of the walk of \<^verbatim>\<open>add_action_trace\<close>: a node
  before its inline traces, these from first to last.
\<close>

fun nodes :: "action_trace \<Rightarrow> action_trace list"
  and nodes_of_list :: "action_trace list \<Rightarrow> action_trace list"
where
  "nodes (Action_trace r a inl) = Action_trace r a inl # nodes_of_list inl"
| "nodes_of_list [] = []"
| "nodes_of_list (t # ts) = nodes t @ nodes_of_list ts"

text \<open>The events recorded between a state and a later one.\<close>

definition effects_since :: "impl \<Rightarrow> impl \<Rightarrow> event list" where
  "effects_since s s' = drop (length (effects s)) (effects s')"

text \<open>The actions \<^verbatim>\<open>update_account\<close> was called with, in order.\<close>

fun called :: "event \<Rightarrow> action list" where
  "called (Called_update_account a) = [a]"
| "called _ = []"

definition update_account_calls :: "event list \<Rightarrow> action list" where
  "update_account_calls es = concat (map called es)"

text \<open>
  The documents handed to the store, each with its type and the id given (\<open>None\<close> for a
  new document): those of \<^verbatim>\<open>index\<close> calls and those of \<^verbatim>\<open>bulk_perform\<close> calls.
\<close>

fun written :: "event \<Rightarrow> (string \<times> variant \<times> string option) list" where
  "written (Index t d i) = [(t, d, i)]"
| "written (Bulk items) = map (\<lambda>(t, d). (t, d, None)) items"
| "written _ = []"

definition documents_written :: "event list \<Rightarrow> (string \<times> variant \<times> string option) list" where
  "documents_written es = concat (map written es)"

definition written_types :: "event list \<Rightarrow> string list" where
  "written_types es = map fst (documents_written es)"

fun is_search :: "event \<Rightarrow> bool" where
  "is_search (Search t q) = True"
| "is_search _ = False"

text \<open>
  Two states with the same configuration: they differ at most in the cache, the store, the
  number of clock reads and the record of effects.
\<close>

definition same_config :: "impl \<Rightarrow> impl \<Rightarrow> bool" where
  "same_config s s' \<longleftrightarrow>
     filter_on_star s' = filter_on_star s \<and> filter_on s' = filter_on s \<and>
     filter_out s' = filter_out s \<and> start_block_num s' = start_block_num s \<and>
     start_block_reached s' = start_block_reached s \<and> store_blocks s' = store_blocks s \<and>
     store_block_states s' = store_block_states s \<and>
     store_transactions s' = store_transactions s \<and>
     store_transaction_traces s' = store_transaction_traces s \<and>
     store_action_traces s' = store_action_traces s \<and> index_name s' = index_name s \<and>
     abi_cache_size s' = abi_cache_size s \<and> clock s' = clock s"

text \<open>
  A step from \<open>s\<close> to \<open>s'\<close> that keeps the configuration and appends to the record events
  \<open>es\<close> with the property \<open>P\<close>.
\<close>

definition appends :: "(event list \<Rightarrow> bool) \<Rightarrow> impl \<Rightarrow> impl \<Rightarrow> bool" where
  "appends P s s' \<longleftrightarrow> same_config s s' \<and> (\<exists>es. effects s' = effects s @ es \<and> P es)"

text \<open>The actions of the nodes that the walk projects.\<close>

definition projected :: "bool \<Rightarrow> action_trace list \<Rightarrow> action list" where
  "projected exec ns =
     map act (filter (\<lambda>n. exec \<and> receiver (receipt n) = system_account_name) ns)"

text \<open>A step that only searches: it appends searches and leaves the store as it is.\<close>

definition only_searches :: "event list \<Rightarrow> bool" where
  "only_searches es \<longleftrightarrow> list_all is_search es"

definition reads :: "impl \<Rightarrow> impl \<Rightarrow> bool" where
  "reads s s' \<longleftrightarrow> appends only_searches s s' \<and> elastic_client s' = elastic_client s"

text \<open>The documents written, each reduced to its type and its \<^verbatim>\<open>block_id\<close> member.\<close>

definition written_for_block :: "event list \<Rightarrow> (string \<times> variant option) list" where
  "written_for_block es = map (\<lambda>(t, d, i). (t, get_key d ''block_id'')) (documents_written es)"

text \<open>The \<^verbatim>\<open>accounts\<close> documents that the query of \<^verbatim>\<open>find_account\<close> matches.\<close>

definition account_query :: "account_name \<Rightarrow> query" where
  "account_query n = Term_query ''name'' (Name_v n)"

definition account_hits :: "impl \<Rightarrow> account_name \<Rightarrow> stored_doc list" where
  "account_hits s n = hits_of (elastic_client s) accounts_type (account_query n)"

text \<open>
  Events of the account projection: no call of \<^verbatim>\<open>update_account\<close> among them, and documents
  written only to \<^verbatim>\<open>accounts\<close>, \<^verbatim>\<open>pub_keys\<close> and \<^verbatim>\<open>account_controls\<close>, all of them without
  an id.
\<close>

definition projection_only :: "event list \<Rightarrow> bool" where
  "projection_only es \<longleftrightarrow>
     update_account_calls es = [] \<and>
     set (written_types es) \<subseteq> {accounts_type, pub_keys_type, account_controls_type} \<and>
     (\<forall>w \<in> set (documents_written es). snd (snd w) = None)"

text \<open>
  Events of the walk over action traces: \<^verbatim>\<open>update_account\<close> is called with the actions \<open>as\<close>,
  in this order, and no document of type \<^verbatim>\<open>transaction_traces\<close> is written.
\<close>

definition walk_events :: "action list \<Rightarrow> event list \<Rightarrow> bool" where
  "walk_events as es \<longleftrightarrow>
     update_account_calls es = as \<and> trans_traces_type \<notin> set (written_types es)"

text \<open>
  What a walk from state \<open>s\<close> over the nodes \<open>ns\<close> with result \<open>res\<close> has done, \<open>added\<close> being
  the flag it started with: the projection calls, and the flag it returns.
\<close>

definition walked ::
  "impl \<Rightarrow> bool \<times> bulk_data \<times> impl \<Rightarrow> action_trace list \<Rightarrow> bool \<Rightarrow> bool \<Rightarrow> bool" where
  "walked s res ns exec added \<longleftrightarrow>
     appends (walk_events (projected exec ns)) s (snd (snd res)) \<and>
     (fst res \<longleftrightarrow>
        added \<or> (start_block_reached s \<and> store_action_traces s \<and>
                  (\<exists>n \<in> set ns. filter_include s (act n))))"

section \<open>Sequences of cache operations\<close>

text \<open>
  The two operations that touch the ABI cache: a lookup with \<^verbatim>\<open>get_abi_serializer\<close>, and a
  call of \<^verbatim>\<open>update_account\<close>, whose \<^verbatim>\<open>setabi\<close> branch erases an entry.
\<close>

datatype cache_op = Get_abi_serializer account_name | Update_account action

fun run_op :: "chain_lib \<Rightarrow> impl \<Rightarrow> cache_op \<Rightarrow> impl" where
  "run_op L s (Get_abi_serializer n) = snd (get_abi_serializer L n s)"
| "run_op L s (Update_account a) = update_account L a s"

definition run_ops :: "chain_lib \<Rightarrow> cache_op list \<Rightarrow> impl \<Rightarrow> impl" where
  "run_ops L ops s = foldl (run_op L) s ops"

text \<open>
  The by-last-access order of the container is ascending, and the size is within the
  capacity.
\<close>

definition cache_ok :: "impl \<Rightarrow> bool" where
  "cache_ok s \<longleftrightarrow>
     sorted (map last_accessed (abi_cache_index s)) \<and>
     length (abi_cache_index s) \<le> abi_cache_size s"

text \<open>
  A step from \<open>s\<close> to \<open>s'\<close> evicts an entry when the entry is cached in \<open>s\<close> and its account
  is not cached in \<open>s'\<close>. Every evicted entry was least recently accessed, and the cache was
  full.
\<close>

definition evictions_lru :: "impl \<Rightarrow> impl \<Rightarrow> bool" where
  "evictions_lru s s' \<longleftrightarrow>
     (\<forall>e \<in> set (abi_cache_index s).
        cache_account e \<notin> cache_account ` set (abi_cache_index s') \<longrightarrow>
          abi_cache_size s \<le> length (abi_cache_index s) \<and>
          (\<forall>x \<in> set (abi_cache_index s). last_accessed e \<le> last_accessed x))"

section \<open>Concrete inputs\<close>

text \<open>
  The inputs at which the theorems below are instantiated. \<open>example_lib\<close> is a stand-in for
  the decoders of the chain library: an empty payload is malformed, any other
  \<^verbatim>\<open>newaccount\<close> payload is the one of scenario 2 of the specification, and any other
  \<^verbatim>\<open>setabi\<close> payload sets the ABI of alice to the rest of the payload.
\<close>

definition alice :: account_name where
  "alice = 3773036822876127232"

definition bob :: account_name where
  "bob = 4399453885987553280"

definition example_lib :: chain_lib where
  "example_lib =
     \<lparr>unpack_newaccount = (\<lambda>b. if b = [] then None else
          Some \<lparr>creator = system_account_name, newaccount_account = alice,
                owner = \<lparr>keys = [\<lparr>key = ''K1''\<rparr>],
                          accounts = [\<lparr>plw_permission = \<lparr>actor = bob, permission = active_name\<rparr>\<rparr>]\<rparr>,
                active = \<lparr>keys = [\<lparr>key = ''K2''\<rparr>], accounts = []\<rparr>\<rparr>),
      unpack_updateauth = (\<lambda>b. if b = [] then None else
          Some \<lparr>updateauth_account = alice, updateauth_permission = active_name,
                auth = \<lparr>keys = [\<lparr>key = ''K3''\<rparr>], accounts = []\<rparr>\<rparr>),
      unpack_deleteauth = (\<lambda>b. if b = [] then None else
          Some \<lparr>deleteauth_account = alice, deleteauth_permission = owner_name\<rparr>),
      unpack_setabi = (\<lambda>b. case b of [] \<Rightarrow> None
          | x # rest \<Rightarrow> Some \<lparr>setabi_account = alice, setabi_abi = rest\<rparr>),
      unpack_abi_def = (\<lambda>b. if b = [] then None else
          Some \<lparr>version = ''eosio::abi/1.0'', structs = []\<rparr>),
      set_abi = (\<lambda>abi. True)\<rparr>"

text \<open>
  The state that \<^verbatim>\<open>plugin_initialize\<close> and \<^verbatim>\<open>init\<close> set up on an empty index: the constants
  assigned there, the gate open because \<^verbatim>\<open>start_block_num\<close> is 0, and the document of the
  system account in the store. The clock of the example advances by one millisecond per
  reading.
\<close>

definition initial_impl :: impl where
  "initial_impl =
     \<lparr>filter_on_star = True, filter_on = {}, filter_out = {},
      start_block_num = 0, start_block_reached = True,
      store_blocks = True, store_block_states = True, store_transactions = True,
      store_transaction_traces = True, store_action_traces = True,
      index_name = ''eos'', abi_cache_size = 2048, abi_cache_index = [],
      elastic_client =
        \<lparr>client_index_name = ''eos'',
         docs = [\<lparr>doc_type = accounts_type, doc_id = auto_id 0,
                  doc_source = Object_v [(''name'', Name_v system_account_name),
                                         (''createAt'', Int_v 0)]\<rparr>],
         auto_ids = 1\<rparr>,
      clock = (\<lambda>n. 1000 * int n), ticks = 1, effects = []\<rparr>"

text \<open>Scenario 5 of the specification: the gate at block 100, and the blocks 99 and 100.\<close>

definition gate_at_100 :: impl where
  "gate_at_100 = initial_impl\<lparr>start_block_num := 100, start_block_reached := False\<rparr>"

definition block_99 :: block_state where
  "block_99 = \<lparr>block_num = 99, block_id = ''00000063'', validated = True,
     in_current_chain = True, block = \<lparr>previous = ''00000062'', transactions = []\<rparr>\<rparr>"

definition block_100 :: block_state where
  "block_100 = \<lparr>block_num = 100, block_id = ''00000064'', validated = True,
     in_current_chain = True, block = \<lparr>previous = ''00000063'', transactions = []\<rparr>\<rparr>"

text \<open>
  Actions: a token transfer of alice (an action of another contract), and the native
  actions \<^verbatim>\<open>newaccount\<close> and \<^verbatim>\<open>setabi\<close> of the system account with well-formed payloads.
\<close>

definition transfer_action :: action where
  "transfer_action =
     \<lparr>account = 6138663591592764928, name = 14829575313431724032,
      authorization = [\<lparr>actor = alice, permission = active_name\<rparr>], data = [1]\<rparr>"

definition newaccount_action :: action where
  "newaccount_action =
     \<lparr>account = system_account_name, name = newaccount_name,
      authorization = [\<lparr>actor = system_account_name, permission = active_name\<rparr>], data = [1]\<rparr>"

definition setabi_action :: action where
  "setabi_action =
     \<lparr>account = system_account_name, name = setabi_name,
      authorization = [\<lparr>actor = alice, permission = active_name\<rparr>], data = [1, 2, 3]\<rparr>"

text \<open>
  Stores: with one \<^verbatim>\<open>accounts\<close> document for alice, as \<^verbatim>\<open>create_account\<close> leaves it, and with
  two of them.
\<close>

definition one_alice :: impl where
  "one_alice = create_account alice 1 initial_impl"

definition two_alices :: impl where
  "two_alices = create_account alice 2 (create_account alice 1 initial_impl)"

text \<open>
  Applied traces: an executed transaction whose only action trace is a \<^verbatim>\<open>newaccount\<close> received
  by the system account, and one whose only action trace is the token transfer.
\<close>

definition newaccount_trace :: transaction_trace where
  "newaccount_trace =
     \<lparr>trace_id = ''a1'', trace_receipt = Some \<lparr>status = executed\<rparr>,
      action_traces = [Action_trace \<lparr>receiver = system_account_name\<rparr> newaccount_action []]\<rparr>"


text \<open>
  A store in which alice, bob and carol have \<^verbatim>\<open>accounts\<close> documents with an \<^verbatim>\<open>abi\<close> member,
  as the upsert of the \<^verbatim>\<open>setabi\<close> projection is meant to write them; the plugin on that
  store, as configured and with a cache of capacity 2.
\<close>

definition carol :: account_name where
  "carol = 4733081447982694400"

definition example_abi :: abi_def where
  "example_abi = \<lparr>version = ''eosio::abi/1.0'', structs = []\<rparr>"

definition abi_documents :: elasticsearch_client where
  "abi_documents =
     \<lparr>client_index_name = ''eos'',
      docs = [\<lparr>doc_type = accounts_type, doc_id = ''a'',
               doc_source = Object_v [(''name'', Name_v alice), (''createAt'', Int_v 1),
                 (''abi'', Abi_def_v example_abi)]\<rparr>,
              \<lparr>doc_type = accounts_type, doc_id = ''b'',
               doc_source = Object_v [(''name'', Name_v bob), (''createAt'', Int_v 2),
                 (''abi'', Abi_def_v example_abi)]\<rparr>,
              \<lparr>doc_type = accounts_type, doc_id = ''c'',
               doc_source = Object_v [(''name'', Name_v carol), (''createAt'', Int_v 3),
                 (''abi'', Abi_def_v example_abi)]\<rparr>],
      auto_ids = 0\<rparr>"

definition with_abis :: impl where
  "with_abis = initial_impl\<lparr>elastic_client := abi_documents\<rparr>"

definition capacity_two :: impl where
  "capacity_two = initial_impl\<lparr>abi_cache_size := 2, elastic_client := abi_documents\<rparr>"

text \<open>
  The state after a lookup of alice, which caches her serializer, and a \<^verbatim>\<open>newaccount\<close> for
  alice applied once more, which adds a second \<^verbatim>\<open>accounts\<close> document for her.
\<close>

definition cached_then_duplicated :: impl where
  "cached_then_duplicated =
     update_account example_lib newaccount_action
       (snd (get_abi_serializer example_lib alice with_abis))"

text \<open>Lookups of alice, of bob and of alice again.\<close>

definition three_lookups :: "cache_op list" where
  "three_lookups = [Get_abi_serializer alice, Get_abi_serializer bob, Get_abi_serializer alice]"

lemma filter_on_loop_iff:
  "filter_on_loop F a ps \<longleftrightarrow> (\<exists>x \<in> set ps. (account a, name a, actor x) \<in> F)"
  by (induction ps) auto

lemma filter_out_loop_iff:
  "filter_out_loop F a ps \<longleftrightarrow> (\<forall>x \<in> set ps. (account a, name a, actor x) \<notin> F)"
  by (induction ps) auto

lemma filter_include_sets:
  "filter_include s a \<longleftrightarrow>
     (filter_on_star s \<or> (account a, name a, 0) \<in> filter_on s \<or>
      (\<exists>x \<in> set (authorization a). (account a, name a, actor x) \<in> filter_on s)) \<and>
     (account a, 0, 0) \<notin> filter_out s \<and> (account a, name a, 0) \<notin> filter_out s \<and>
     (\<forall>x \<in> set (authorization a). (account a, name a, actor x) \<notin> filter_out s)"
  by (auto simp: filter_include_def filter_on_loop_iff filter_out_loop_iff)

text \<open>
  C5. For every action, \<^verbatim>\<open>filter_include\<close> returns true exactly when the action is a
  candidate (wildcard mode, or \<^verbatim>\<open>filter_on\<close> holds (account, name, 0), or it holds
  (account, name, actor) for some authorizer) and \<^verbatim>\<open>filter_out\<close> holds none of
  (account, 0, 0), (account, name, 0), (account, name, actor) for any authorizer.
\<close>

theorem filter_include_iff_candidate_not_dropped:
  "filter_include s a \<longleftrightarrow> candidate s a \<and> \<not> dropped s a"
  unfolding candidate_def dropped_def filter_include_sets by blast

text \<open>
  Scenario 1 of the specification: in wildcard mode the transfer authorised by alice is
  included, and it is excluded once \<^verbatim>\<open>filter_out\<close> holds its triple.
\<close>

theorem filter_include_iff_candidate_not_dropped_witness:
  "filter_include initial_impl transfer_action \<and>
   \<not> filter_include
     (initial_impl\<lparr>filter_out := {(account transfer_action, name transfer_action, alice)}\<rparr>)
     transfer_action"
proof -
  have "candidate initial_impl transfer_action"
    "\<not> dropped initial_impl transfer_action"
    "dropped (initial_impl\<lparr>filter_out := {(account transfer_action, name transfer_action, alice)}\<rparr>)
       transfer_action"
    by (simp_all add: candidate_def dropped_def initial_impl_def transfer_action_def)
  then show ?thesis
    using filter_include_iff_candidate_not_dropped [of initial_impl transfer_action]
      filter_include_iff_candidate_not_dropped
        [of "initial_impl\<lparr>filter_out := {(account transfer_action, name transfer_action, alice)}\<rparr>"
            transfer_action]
    by blast
qed

text \<open>
  C6. The result of \<^verbatim>\<open>filter_include\<close> does not depend on the order of the authorization
  list: for every permutation p of the list (a list with the same multiset of entries), the
  action with authorization p gets the same answer.
\<close>

theorem filter_include_permutation:
  "mset p = mset (authorization a) \<Longrightarrow>
   filter_include s (a\<lparr>authorization := p\<rparr>) = filter_include s a"
proof -
  assume "mset p = mset (authorization a)"
  then have "set p = set (authorization a)"
    by (rule mset_eq_setD)
  then show ?thesis
    by (simp add: filter_include_sets)
qed

theorem filter_include_permutation_witness:
  "mset [\<lparr>actor = 2, permission = 7\<rparr>, \<lparr>actor = 1, permission = 7\<rparr>] =
   mset (authorization \<lparr>account = 5, name = 6,
     authorization = [\<lparr>actor = 1, permission = 7\<rparr>, \<lparr>actor = 2, permission = 7\<rparr>], data = []\<rparr>) \<and>
   filter_include \<lparr>filter_on_star = False, filter_on = {(5, 6, 2)}, filter_out = {}\<rparr>
     (\<lparr>account = 5, name = 6,
       authorization = [\<lparr>actor = 1, permission = 7\<rparr>, \<lparr>actor = 2, permission = 7\<rparr>], data = []\<rparr>
      \<lparr>authorization := [\<lparr>actor = 2, permission = 7\<rparr>, \<lparr>actor = 1, permission = 7\<rparr>]\<rparr>) =
   filter_include \<lparr>filter_on_star = False, filter_on = {(5, 6, 2)}, filter_out = {}\<rparr>
     \<lparr>account = 5, name = 6,
      authorization = [\<lparr>actor = 1, permission = 7\<rparr>, \<lparr>actor = 2, permission = 7\<rparr>], data = []\<rparr>"
proof -
  have h: "mset [\<lparr>actor = 2, permission = 7\<rparr>, \<lparr>actor = 1, permission = 7\<rparr>] =
    mset (authorization \<lparr>account = 5, name = 6,
      authorization = [\<lparr>actor = 1 :: name, permission = 7 :: name\<rparr>, \<lparr>actor = 2, permission = 7\<rparr>],
      data = []\<rparr>)"
    by (simp add: add_mset_commute)
  show ?thesis
    using h filter_include_permutation [OF h] by blast
qed

section \<open>Steps, configuration and the record of effects\<close>

lemma same_config_refl [simp]: "same_config s s"
  by (simp add: same_config_def)

lemma same_config_trans: "same_config s s' \<Longrightarrow> same_config s' s'' \<Longrightarrow> same_config s s''"
  by (simp add: same_config_def)

lemma appends_refl: "P [] \<Longrightarrow> appends P s s"
  by (simp add: appends_def)

lemma appends_trans:
  "appends P s s' \<Longrightarrow> appends Q s' s'' \<Longrightarrow> (\<And>es fs. P es \<Longrightarrow> Q fs \<Longrightarrow> R (es @ fs)) \<Longrightarrow>
   appends R s s''"
  unfolding appends_def using same_config_trans by fastforce

lemma appends_weaken: "appends P s s' \<Longrightarrow> (\<And>es. P es \<Longrightarrow> Q es) \<Longrightarrow> appends Q s s'"
  unfolding appends_def by blast

lemma find_account_eq:
  "find_account n s =
     (if length (hits_of (elastic_client s) accounts_type (Term_query ''name'' (Name_v n))) = 1
      then Returned (Some (hit_of (elastic_client s)
             (hd (hits_of (elastic_client s) accounts_type (Term_query ''name'' (Name_v n))))))
      else Returned None,
      s\<lparr>effects := effects s @ [Search accounts_type (Term_query ''name'' (Name_v n))]\<rparr>)"
  by (cases "hits_of (elastic_client s) accounts_type (Term_query ''name'' (Name_v n))")
     (simp_all add: find_account_def es_search_def client_search_def)

lemma find_account_state:
  "snd (find_account n s) = s\<lparr>effects := effects s @ [Search accounts_type (Term_query ''name'' (Name_v n))]\<rparr>"
  by (simp add: find_account_eq)

lemma search_abi_by_account_state:
  "snd (search_abi_by_account n s) = s\<lparr>effects := effects s @ [Search accounts_type (Term_query ''name'' (Name_v n))]\<rparr>"
  by (simp add: search_abi_by_account_def find_account_eq split: option.splits)

lemma only_searches_simps [simp]:
  "only_searches []" "only_searches (es @ fs) \<longleftrightarrow> only_searches es \<and> only_searches fs"
  "only_searches [Search t q]"
  by (simp_all add: only_searches_def)

lemma purge_abi_cache_frame:
  "same_config s (purge_abi_cache s)" "effects (purge_abi_cache s) = effects s"
  "elastic_client (purge_abi_cache s) = elastic_client s"
  by (simp_all add: purge_abi_cache_def same_config_def split: list.splits)

lemma purge_abi_cache_appends: "appends (\<lambda>es. es = []) s (purge_abi_cache s)"
  by (simp add: appends_def purge_abi_cache_frame)

lemma get_abi_serializer_appends:
  "appends only_searches s (snd (get_abi_serializer L n s))"
proof (cases "good n \<and> cache_find n (abi_cache_index s) = None")
  case False
  then show ?thesis
    by (auto simp: get_abi_serializer_def appends_def same_config_def time_point_now_def
        split: option.splits)
next
  case True
  obtain r s1 where r: "search_abi_by_account n s = (r, s1)"
    by (cases "search_abi_by_account n s")
  then have s1: "s1 = s\<lparr>effects := effects s @ [Search accounts_type (Term_query ''name'' (Name_v n))]\<rparr>"
    using search_abi_by_account_state [of n s] by simp
  have a: "appends only_searches s s1"
    by (simp add: s1 appends_def same_config_def)
  have b: "appends only_searches s1 (purge_abi_cache s1)"
    by (rule appends_weaken [OF purge_abi_cache_appends]) simp
  have c: "appends only_searches s (purge_abi_cache s1)"
    by (rule appends_trans [OF a b]) simp
  have d: "appends only_searches s ((purge_abi_cache s1)\<lparr>ticks := k\<rparr>)" for k
    using c by (simp add: appends_def same_config_def)
  have e: "appends only_searches s ((purge_abi_cache s1)\<lparr>ticks := k, abi_cache_index := x\<rparr>)" for k x
    using c by (simp add: appends_def same_config_def)
  show ?thesis
    using True r a d e
    by (simp add: get_abi_serializer_def time_point_now_def Let_def
        split: option.splits attempt.splits prod.splits)
qed

lemma get_abi_serializer_client:
  "elastic_client (snd (get_abi_serializer L n s)) = elastic_client s"
proof (cases "good n \<and> cache_find n (abi_cache_index s) = None")
  case False
  then show ?thesis
    by (auto simp: get_abi_serializer_def time_point_now_def split: option.splits)
next
  case True
  obtain r s1 where r: "search_abi_by_account n s = (r, s1)"
    by (cases "search_abi_by_account n s")
  then have s1: "s1 = s\<lparr>effects := effects s @ [Search accounts_type (Term_query ''name'' (Name_v n))]\<rparr>"
    using search_abi_by_account_state [of n s] by simp
  show ?thesis
    using True r
    by (simp add: get_abi_serializer_def time_point_now_def Let_def s1 purge_abi_cache_frame
        split: option.splits attempt.splits prod.splits)
qed


lemma reads_refl [simp]: "reads s s"
  by (simp add: reads_def appends_def)

lemma reads_trans: "reads s s' \<Longrightarrow> reads s' s'' \<Longrightarrow> reads s s''"
  unfolding reads_def using appends_trans [of only_searches s s' only_searches s'' only_searches]
  by simp

lemma get_abi_serializer_reads: "reads s (snd (get_abi_serializer L n s))"
  by (simp add: reads_def get_abi_serializer_appends get_abi_serializer_client)

lemma action_variant_reads: "reads s (snd (action_variant L a s))"
  using get_abi_serializer_reads [of s L "account a"]
  by (simp add: action_variant_def case_prod_beta Let_def)

lemma actions_variant_reads: "reads s (snd (actions_variant L as s))"
proof (induction as arbitrary: s)
  case Nil
  then show ?case by simp
next
  case (Cons a as)
  show ?case
    using reads_trans [OF action_variant_reads [of s L a] Cons.IH [of "snd (action_variant L a s)"]]
    by (simp add: case_prod_beta Let_def)
qed

lemma action_trace_variant_reads:
  "reads s (snd (action_trace_variant L t s))"
  "reads s (snd (action_traces_variant L ts s))"
proof (induction L t s and L ts s rule: action_trace_variant_action_traces_variant.induct)
  case (1 L r a inl s)
  show ?case
    using reads_trans [OF action_variant_reads [of s L a] "1" [of "(fst (action_variant L a s), snd (action_variant L a s))" "fst (action_variant L a s)" "snd (action_variant L a s)"]]
    by (simp add: case_prod_beta Let_def)
next
  case (2 L s)
  then show ?case by simp
next
  case (3 L t ts s)
  show ?case
    using reads_trans [OF "3"(1) "3"(2) [of "(fst (action_trace_variant L t s), snd (action_trace_variant L t s))" "fst (action_trace_variant L t s)" "snd (action_trace_variant L t s)"]]
    by (simp add: case_prod_beta Let_def)
qed

lemma base_action_trace_variant_reads: "reads s (snd (base_action_trace_variant L t s))"
  using action_variant_reads [of s L "act t"]
  by (simp add: base_action_trace_variant_def case_prod_beta Let_def)

lemma transaction_trace_variant_reads: "reads s (snd (transaction_trace_variant L t s))"
  using action_trace_variant_reads(2) [of s L "action_traces t"]
  by (simp add: transaction_trace_variant_def case_prod_beta Let_def)

lemma transaction_variant_reads: "reads s (snd (transaction_variant L trx s))"
  using reads_trans [OF actions_variant_reads [of s L "context_free_actions trx"]
      actions_variant_reads [of "snd (actions_variant L (context_free_actions trx) s)" L "actions trx"]]
  by (simp add: transaction_variant_def case_prod_beta Let_def)

lemma receipts_variant_reads: "reads s (snd (receipts_variant L rs s))"
proof (induction L rs s rule: receipts_variant.induct)
  case (1 L s)
  then show ?case by simp
next
  case (2 L i rs s)
  then show ?case by (simp add: case_prod_beta Let_def)
next
  case (3 L trx rs s)
  show ?case
    using reads_trans [OF transaction_variant_reads [of s L trx] "3" [of "(fst (transaction_variant L trx s), snd (transaction_variant L trx s))" "fst (transaction_variant L trx s)" "snd (transaction_variant L trx s)"]]
    by (simp add: case_prod_beta Let_def)
qed

lemma signed_block_variant_reads: "reads s (snd (signed_block_variant L b s))"
  using receipts_variant_reads [of s L "transactions b"]
  by (simp add: signed_block_variant_def case_prod_beta Let_def)

section \<open>Accepted blocks and the gate\<close>

lemma documents_written_append [simp]:
  "documents_written (es @ fs) = documents_written es @ documents_written fs"
  by (simp add: documents_written_def)

lemma documents_written_Nil [simp]: "documents_written [] = []"
  by (simp add: documents_written_def)

lemma documents_written_Cons [simp]:
  "documents_written (e # es) = written e @ documents_written es"
  by (simp add: documents_written_def)

lemma documents_written_only_searches: "only_searches es \<Longrightarrow> documents_written es = []"
  by (induction es) (auto simp: only_searches_def documents_written_def elim: is_search.elims)

lemma reads_effects:
  "reads s s' \<Longrightarrow> \<exists>es. effects s' = effects s @ es \<and> only_searches es"
  by (auto simp: reads_def appends_def)

lemma reads_same_config: "reads s s' \<Longrightarrow> same_config s s'"
  by (simp add: reads_def appends_def)

lemma process_accepted_block'_written:
  "\<exists>es. effects (process_accepted_block' L bs s) = effects s @ es \<and>
     written_for_block es =
       (block_states_type, Some (String_v (block_id bs))) #
       (if store_blocks s then [(blocks_type, Some (String_v (block_id bs)))] else [])"
proof -
  define s1 where "s1 = snd (now_milliseconds s)"
  define now where "now = fst (now_milliseconds s)"
  define d where "d = Object_v [(''block_num'', Int_v (sint (block_num bs))),
                      (''block_id'', String_v (block_id bs)),
                      (''validated'', Bool_v (validated bs)),
                      (''in_current_chain'', Bool_v (in_current_chain bs)),
                      (''block_header_state'', block_header_state_variant bs),
                      (''createAt'', Int_v now)]"
  define s2 where "s2 = es_index block_states_type d None s1"
  have e2: "effects s2 = effects s @ [Index block_states_type d None]"
    by (simp add: s2_def s1_def es_index_def now_milliseconds_def time_point_now_def)
  have sb: "store_blocks s2 = store_blocks s"
    by (simp add: s2_def s1_def es_index_def now_milliseconds_def time_point_now_def)
  have kd: "get_key d ''block_id'' = Some (String_v (block_id bs))"
    by (simp add: d_def)
  show ?thesis
  proof (cases "store_blocks s")
    case False
    have "process_accepted_block' L bs s = s2"
      using False sb
      by (simp add: process_accepted_block'_def s2_def s1_def d_def now_def case_prod_beta Let_def)
    then show ?thesis
      using False e2 kd by (simp add: written_for_block_def)
  next
    case True
    obtain fs where fs: "effects (snd (signed_block_variant L (block bs) s2)) = effects s2 @ fs"
      "only_searches fs"
      using reads_effects [OF signed_block_variant_reads [of s2 L "block bs"]] by blast
    define d2 where "d2 = Object_v [(''block_num'', Int_v (sint (block_num bs))),
                               (''block_id'', String_v (block_id bs)),
                               (''irreversible'', Bool_v False),
                               (''block'', fst (signed_block_variant L (block bs) s2)),
                               (''createAt'', Int_v now)]"
    have "process_accepted_block' L bs s =
        es_index blocks_type d2 None (snd (signed_block_variant L (block bs) s2))"
      using True sb
      by (simp add: process_accepted_block'_def s2_def s1_def d_def d2_def now_def case_prod_beta Let_def)
    then have "effects (process_accepted_block' L bs s) =
        effects s @ ([Index block_states_type d None] @ fs @ [Index blocks_type d2 None])"
      by (simp add: es_index_def fs e2)
    moreover have "get_key d2 ''block_id'' = Some (String_v (block_id bs))"
      by (simp add: d2_def)
    ultimately show ?thesis
      using True kd documents_written_only_searches [OF fs(2)]
      by (simp add: written_for_block_def)
  qed
qed

text \<open>
  C4. Processing an accepted block whose number is at least \<^verbatim>\<open>start_block_num\<close> while the gate
  is closed opens the gate. Whenever the gate is open after this check (it was open, or the
  block opens it), a \<^verbatim>\<open>block_states\<close> document for the block is written, and after it a
  \<^verbatim>\<open>blocks\<close> document exactly when \<^verbatim>\<open>store_blocks\<close> is set; nothing else is written. A block
  below \<^verbatim>\<open>start_block_num\<close> while the gate is closed leaves the state as it is and writes no
  document.
\<close>

theorem process_accepted_block_gate:
  "(\<not> start_block_reached s \<and> start_block_num s \<le> block_num bs \<longrightarrow>
      start_block_reached (process_accepted_block L bs s)) \<and>
   (start_block_reached s \<or> start_block_num s \<le> block_num bs \<longrightarrow>
      start_block_reached (process_accepted_block L bs s) \<and>
      written_for_block (effects_since s (process_accepted_block L bs s)) =
        (block_states_type, Some (String_v (block_id bs))) #
        (if store_blocks s then [(blocks_type, Some (String_v (block_id bs)))] else [])) \<and>
   (\<not> start_block_reached s \<and> block_num bs < start_block_num s \<longrightarrow>
      process_accepted_block L bs s = s \<and>
      documents_written (effects_since s (process_accepted_block L bs s)) = [])"
proof -
  have keep: "start_block_reached (process_accepted_block' L bs x) = start_block_reached x" for x
    using reads_same_config [OF signed_block_variant_reads]
    by (simp add: process_accepted_block'_def case_prod_beta Let_def es_index_def
        now_milliseconds_def time_point_now_def same_config_def)
  have above: "written_for_block (effects_since x (process_accepted_block' L bs x)) =
        (block_states_type, Some (String_v (block_id bs))) #
        (if store_blocks x then [(blocks_type, Some (String_v (block_id bs)))] else [])" for x
    using process_accepted_block'_written [of L bs x] by (auto simp: effects_since_def)
  have open_gate: "effects_since s (process_accepted_block' L bs (s\<lparr>start_block_reached := True\<rparr>)) =
      effects_since (s\<lparr>start_block_reached := True\<rparr>) (process_accepted_block' L bs (s\<lparr>start_block_reached := True\<rparr>))"
    by (simp add: effects_since_def)
  show ?thesis
    using above [of s] above [of "s\<lparr>start_block_reached := True\<rparr>"] open_gate
    by (auto simp: process_accepted_block_def keep effects_since_def)
qed

text \<open>Scenario 5 of the specification, with the gate at block 100.\<close>

theorem process_accepted_block_gate_witness:
  "start_block_reached (process_accepted_block example_lib block_100 gate_at_100) \<and>
   written_for_block (effects_since gate_at_100
       (process_accepted_block example_lib block_100 gate_at_100)) =
     [(block_states_type, Some (String_v ''00000064'')), (blocks_type, Some (String_v ''00000064''))] \<and>
   process_accepted_block example_lib block_99 gate_at_100 = gate_at_100 \<and>
   documents_written (effects_since gate_at_100
       (process_accepted_block example_lib block_99 gate_at_100)) = []"
proof -
  have h: "\<not> start_block_reached gate_at_100" "store_blocks gate_at_100"
    "start_block_num gate_at_100 \<le> block_num block_100"
    "block_num block_99 < start_block_num gate_at_100"
    "block_id block_100 = ''00000064''"
    by (simp_all add: gate_at_100_def block_100_def block_99_def initial_impl_def)
  show ?thesis
    using h process_accepted_block_gate [of gate_at_100 block_100 example_lib]
      process_accepted_block_gate [of gate_at_100 block_99 example_lib]
    by (simp add: effects_since_def)
qed

section \<open>Backpressure\<close>

lemma sint_add_10:
  "0 \<le> sint (t :: 32 word) \<Longrightarrow> sint t \<le> 2147483637 \<Longrightarrow> sint (t + 10) = sint t + 10"
  by (simp add: sint_word_ariths signed_take_bit_int_eq_self)

lemma sint_sub_10:
  "0 \<le> sint (t :: 32 word) \<Longrightarrow> sint (t - 10) = sint t - 10"
  using sint_range_size [of t]
  by (simp add: sint_word_ariths signed_take_bit_int_eq_self word_size)

lemma sless_sint: "(a <s b) = (sint a < sint (b :: 32 word))"
  by (rule word_sless_alt)

text \<open>
  C8. In a call of \<^verbatim>\<open>queue\<close>: when the queue is longer than \<^verbatim>\<open>max_queue_size\<close>, the counter
  grows by 10 milliseconds and the producer, having released the mutex and notified the
  consumer, sleeps for the new value of the counter, takes the mutex again and only then
  appends; otherwise the counter shrinks by 10 milliseconds, not below 0, and the producer
  appends without sleeping. In every call the element is appended exactly once, at the end
  of the queue as it is when the producer holds the mutex, and the time the producer has
  slept so far does not decrease. The bounds on the counter are its invariant (it starts
  at 0 and the theorem preserves it) and the room left for adding 10 in a 32-bit \<^verbatim>\<open>int\<close>.
\<close>

theorem queue_backpressure:
  assumes "0 \<le> sint (queue_sleep_time st)" and "sint (queue_sleep_time st) \<le> 2147483637"
  shows "(length (entries st) > max_queue_size st \<longrightarrow>
            sint (queue_sleep_time (queue others e st)) = sint (queue_sleep_time st) + 10 \<and>
            steps_since st (queue others e st) =
              [Lock, Unlock, Notify_one] @
              (if 1000 < sint (queue_sleep_time st) + 10 then [Wlog (length (entries st))] else []) @
              [Sleep_for (sint (queue_sleep_time st) + 10), Lock,
               Emplace_back e, Unlock, Notify_one] \<and>
            entries (queue others e st) = others (entries st) @ [e] \<and>
            cumulative_sleep (queue others e st) =
              cumulative_sleep st + (sint (queue_sleep_time st) + 10)) \<and>
         (\<not> length (entries st) > max_queue_size st \<longrightarrow>
            sint (queue_sleep_time (queue others e st)) = max 0 (sint (queue_sleep_time st) - 10) \<and>
            steps_since st (queue others e st) = [Lock, Emplace_back e, Unlock, Notify_one] \<and>
            entries (queue others e st) = entries st @ [e] \<and>
            cumulative_sleep (queue others e st) = cumulative_sleep st) \<and>
         length (filter (\<lambda>x. x = Emplace_back e) (steps_since st (queue others e st))) = 1 \<and>
         cumulative_sleep st \<le> cumulative_sleep (queue others e st) \<and>
         0 \<le> sint (queue_sleep_time (queue others e st)) \<and>
         max_queue_size (queue others e st) = max_queue_size st"
  using assms sint_add_10 [OF assms] sint_sub_10 [OF assms(1)]
  by (auto simp: queue_def cumulative_sleep_def steps_since_def Let_def sless_sint)

text \<open>
  Scenario 6: \<^verbatim>\<open>max_queue_size\<close> is 2 and the consumer is stalled (the other threads leave the
  queue as it is). A call on a queue of three sleeps 10 milliseconds and then appends; a
  call on a queue of two appends at once and takes the counter back to 0.
\<close>

theorem queue_backpressure_witness:
  "steps_since \<lparr>max_queue_size = 2, queue_sleep_time = 0, entries = [1, 2, 3], steps = []\<rparr>
     (queue (\<lambda>q. q) (5::nat)
        \<lparr>max_queue_size = 2, queue_sleep_time = 0, entries = [1, 2, 3], steps = []\<rparr>) =
     [Lock, Unlock, Notify_one, Sleep_for 10, Lock, Emplace_back 5, Unlock, Notify_one] \<and>
   sint (queue_sleep_time (queue (\<lambda>q. q) (5::nat)
      \<lparr>max_queue_size = 2, queue_sleep_time = 0, entries = [1, 2, 3], steps = []\<rparr>)) = 10 \<and>
   entries (queue (\<lambda>q. q) (5::nat)
      \<lparr>max_queue_size = 2, queue_sleep_time = 0, entries = [1, 2, 3], steps = []\<rparr>) = [1, 2, 3, 5] \<and>
   steps_since \<lparr>max_queue_size = 2, queue_sleep_time = 10, entries = [1, 2], steps = []\<rparr>
     (queue (\<lambda>q. q) (5::nat)
        \<lparr>max_queue_size = 2, queue_sleep_time = 10, entries = [1, 2], steps = []\<rparr>) =
     [Lock, Emplace_back 5, Unlock, Notify_one] \<and>
   sint (queue_sleep_time (queue (\<lambda>q. q) (5::nat)
      \<lparr>max_queue_size = 2, queue_sleep_time = 10, entries = [1, 2], steps = []\<rparr>)) = 0 \<and>
   entries (queue (\<lambda>q. q) (5::nat)
      \<lparr>max_queue_size = 2, queue_sleep_time = 10, entries = [1, 2], steps = []\<rparr>) = [1, 2, 5]"
  using queue_backpressure
      [of "\<lparr>max_queue_size = 2, queue_sleep_time = 0, entries = [1, 2, 3], steps = []\<rparr>"
          "\<lambda>q. q" "5::nat"]
    queue_backpressure
      [of "\<lparr>max_queue_size = 2, queue_sleep_time = 10, entries = [1, 2], steps = []\<rparr>"
          "\<lambda>q. q" "5::nat"]
  by simp

section \<open>The account projection\<close>

lemma update_account_calls_simps [simp]:
  "update_account_calls [] = []"
  "update_account_calls (e # es) = called e @ update_account_calls es"
  "update_account_calls (es @ fs) = update_account_calls es @ update_account_calls fs"
  by (simp_all add: update_account_calls_def)

lemma written_types_simps [simp]:
  "written_types [] = []"
  "written_types (e # es) = map fst (written e) @ written_types es"
  "written_types (es @ fs) = written_types es @ written_types fs"
  by (simp_all add: written_types_def)

lemma only_searches_quiet:
  "only_searches es \<Longrightarrow> update_account_calls es = [] \<and> written_types es = []"
  by (induction es) (auto simp: only_searches_def elim: is_search.elims)

lemma projection_only_simps [simp]:
  "projection_only []"
  "projection_only (es @ fs) \<longleftrightarrow> projection_only es \<and> projection_only fs"
  by (auto simp: projection_only_def)

lemma only_searches_projection_only: "only_searches es \<Longrightarrow> projection_only es"
  by (simp add: projection_only_def only_searches_quiet documents_written_only_searches)

lemma appends_projection_trans:
  "appends projection_only s s' \<Longrightarrow> appends projection_only s' s'' \<Longrightarrow> appends projection_only s s''"
  by (rule appends_trans [of projection_only s s' projection_only s'' projection_only]) simp_all

lemma now_milliseconds_appends: "appends projection_only s (snd (now_milliseconds s))"
  by (simp add: appends_def same_config_def now_milliseconds_def time_point_now_def)

lemma create_account_appends: "appends projection_only s (create_account n now s)"
  by (simp add: appends_def same_config_def create_account_def es_index_def projection_only_def)

lemma add_pub_keys_appends: "appends projection_only s (add_pub_keys ks n p now s)"
  by (auto simp: appends_def same_config_def add_pub_keys_def es_bulk_perform_def projection_only_def)

lemma add_account_control_appends: "appends projection_only s (add_account_control cs n p now s)"
  by (auto simp: appends_def same_config_def add_account_control_def es_bulk_perform_def projection_only_def)

lemma remove_pub_keys_appends: "appends projection_only s (remove_pub_keys n p s)"
  by (simp add: appends_def same_config_def remove_pub_keys_def es_delete_by_query_def projection_only_def)

lemma remove_account_control_appends: "appends projection_only s (remove_account_control n p s)"
  by (simp add: appends_def same_config_def remove_account_control_def es_delete_by_query_def projection_only_def)

lemma find_account_appends: "appends projection_only s (snd (find_account n s))"
  by (simp add: find_account_state appends_def same_config_def projection_only_def)

text \<open>
  A hit has no member called \<^verbatim>\<open>name\<close>: the members of the document are under \<^verbatim>\<open>_source\<close>.
\<close>

lemma hit_of_keys:
  "get_key (hit_of c d) ''name'' = None"
  "get_key (hit_of c d) ''_source'' = Some (doc_source d)"
  "get_key (hit_of c d) ''_id'' = Some (String_v (doc_id d))"
  by (simp_all add: hit_of_def)

lemma find_account_fst:
  "fst (find_account n s) =
     (if length (account_hits s n) = 1
      then Returned (Some (hit_of (elastic_client s) (hd (account_hits s n))))
      else Returned None)"
  by (simp add: find_account_eq account_hits_def account_query_def)

lemma update_account_setabi_eq:
  "update_account_setabi L sa now s =
     (let n = setabi_account sa;
          s1 = s\<lparr>abi_cache_index := cache_erase n (abi_cache_index s),
                 effects := effects s @ [Cache_erase n]\<rparr>;
          s2 = snd (find_account n s1);
          s3 = (if length (account_hits s n) = 1 then s2 else create_account n now s2)
      in snd (find_account n s3))"
  by (simp add: update_account_setabi_def find_account_eq hit_of_keys Let_def account_hits_def account_query_def
      split: option.splits)


lemma cache_erase_appends:
  "appends projection_only s
     (s\<lparr>abi_cache_index := c, effects := effects s @ [Cache_erase n]\<rparr>)"
  by (simp add: appends_def same_config_def projection_only_def)

lemma update_account_setabi_appends:
  "appends projection_only s (update_account_setabi L sa now s)"
proof -
  define n where "n = setabi_account sa"
  define s1 where "s1 = s\<lparr>abi_cache_index := cache_erase n (abi_cache_index s),
                 effects := effects s @ [Cache_erase n]\<rparr>"
  define s2 where "s2 = snd (find_account n s1)"
  define s3 where "s3 = (if length (account_hits s n) = 1 then s2 else create_account n now s2)"
  have 1: "appends projection_only s s1"
    unfolding s1_def by (rule cache_erase_appends)
  have 2: "appends projection_only s s2"
    unfolding s2_def by (rule appends_projection_trans [OF 1 find_account_appends])
  have 3: "appends projection_only s s3"
    unfolding s3_def using 2 appends_projection_trans [OF 2 create_account_appends] by simp
  have "appends projection_only s (snd (find_account n s3))"
    by (rule appends_projection_trans [OF 3 find_account_appends])
  then show ?thesis
    unfolding update_account_setabi_eq Let_def s3_def s2_def s1_def n_def .
qed

lemma update_account_appends:
  "appends projection_only (s\<lparr>effects := effects s @ [Called_update_account a]\<rparr>)
     (update_account L a s)"
proof -
  define s0 where "s0 = s\<lparr>effects := effects s @ [Called_update_account a]\<rparr>"
  note t = appends_projection_trans
  have r: "appends projection_only s0 s0"
    by (simp add: appends_refl)
  have n: "appends projection_only s0 (snd (now_milliseconds s0))"
    by (rule now_milliseconds_appends)
  have new: "appends projection_only s0
      (add_account_control c2 n2 p2 now
        (add_pub_keys k2 n2 p2 now
          (add_account_control c1 n1 p1 now
            (add_pub_keys k1 n1 p1 now
              (create_account n0 now (snd (now_milliseconds s0)))))))" for c2 n2 p2 now k2 c1 n1 p1 k1 n0
    by (intro t [OF t [OF t [OF t [OF t [OF n create_account_appends] add_pub_keys_appends]
        add_account_control_appends] add_pub_keys_appends] add_account_control_appends])
  have upd: "appends projection_only s0
      (add_account_control c2 n2 p2 now
        (add_pub_keys k2 n2 p2 now
          (remove_account_control n1 p1
            (remove_pub_keys n0 p0 (snd (now_milliseconds s0))))))" for c2 n2 p2 now k2 n1 p1 n0 p0
    by (intro t [OF t [OF t [OF t [OF n remove_pub_keys_appends] remove_account_control_appends]
        add_pub_keys_appends] add_account_control_appends])
  have del: "appends projection_only s0 (remove_account_control n1 p1 (remove_pub_keys n0 p0 s0))"
    for n1 p1 n0 p0
    by (intro t [OF remove_pub_keys_appends remove_account_control_appends])
  have sa: "appends projection_only s0 (update_account_setabi L x now (snd (now_milliseconds s0)))"
    for x now
    by (intro t [OF n update_account_setabi_appends])
  show ?thesis
    unfolding update_account_def Let_def s0_def [symmetric]
    using r n new upd del sa
    by (simp add: case_prod_beta split: option.splits)
qed


lemma update_account_effects:
  "\<exists>es. effects (update_account L a s) = effects s @ Called_update_account a # es \<and>
        projection_only es"
  using update_account_appends [of s a L] by (auto simp: appends_def)

lemma update_account_same_config: "same_config s (update_account L a s)"
  using update_account_appends [of s a L] by (auto simp: appends_def same_config_def)

text \<open>
  C9. For an action whose account is not the system account, \<^verbatim>\<open>update_account\<close> returns at
  once: apart from the record of the call itself the state is unchanged, so there is no
  call of the search client and the ABI cache is as before. This is so also when the call
  comes from \<^verbatim>\<open>add_action_trace\<close> for a node whose receiver is the system account (shown for
  a node without inline traces, with \<^verbatim>\<open>store_action_traces\<close> off so that the walk does nothing
  else): the receiver decides whether \<^verbatim>\<open>update_account\<close> is called, the account of the action
  whether it projects.
\<close>

theorem update_account_other_account:
  assumes "account a \<noteq> system_account_name"
  shows "update_account L a s = s\<lparr>effects := effects s @ [Called_update_account a]\<rparr> \<and>
         elastic_client (update_account L a s) = elastic_client s \<and>
         abi_cache_index (update_account L a s) = abi_cache_index s \<and>
         effects_since s (update_account L a s) = [Called_update_account a] \<and>
         (\<not> store_action_traces s \<longrightarrow>
            add_action_trace L (Action_trace \<lparr>receiver = system_account_name\<rparr> a []) True now (bulk, s) =
              (False, bulk, s\<lparr>effects := effects s @ [Called_update_account a]\<rparr>))"
  using assms by (simp add: update_account_def effects_since_def)

theorem update_account_other_account_witness:
  "account transfer_action \<noteq> system_account_name \<and>
   elastic_client (update_account example_lib transfer_action initial_impl) =
     elastic_client initial_impl \<and>
   abi_cache_index (update_account example_lib transfer_action initial_impl) = [] \<and>
   effects_since initial_impl (update_account example_lib transfer_action initial_impl) =
     [Called_update_account transfer_action] \<and>
   add_action_trace example_lib
       (Action_trace \<lparr>receiver = system_account_name\<rparr> transfer_action []) True 7
       ([], initial_impl\<lparr>store_action_traces := False\<rparr>) =
     (False, [], initial_impl\<lparr>store_action_traces := False,
        effects := [Called_update_account transfer_action]\<rparr>)"
proof -
  have h: "account transfer_action \<noteq> system_account_name"
    by (simp add: transfer_action_def system_account_name_def)
  have i: "abi_cache_index initial_impl = []" "effects initial_impl = []"
    "\<not> store_action_traces (initial_impl\<lparr>store_action_traces := False\<rparr>)"
    by (simp_all add: initial_impl_def)
  show ?thesis
    using h i update_account_other_account [OF h, of example_lib initial_impl]
      update_account_other_account [OF h, of example_lib "initial_impl\<lparr>store_action_traces := False\<rparr>" 7 "[]"]
    by (simp add: effects_since_def del: add_action_trace.simps)
qed

section \<open>Finding accounts and the ABI projection\<close>

lemma search_abi_by_account_fst:
  "length (account_hits s n) \<noteq> 1 \<Longrightarrow> fst (search_abi_by_account n s) = Returned None"
  by (simp add: search_abi_by_account_def find_account_eq account_hits_def account_query_def)

lemma get_abi_serializer_not_found:
  "length (account_hits s n) \<noteq> 1 \<Longrightarrow> cache_find n (abi_cache_index s) = None \<Longrightarrow>
   fst (get_abi_serializer L n s) = None"
  by (simp add: get_abi_serializer_def search_abi_by_account_def find_account_eq account_hits_def account_query_def)

lemma setabi_name_distinct:
  "setabi_name \<noteq> newaccount_name" "setabi_name \<noteq> updateauth_name" "setabi_name \<noteq> deleteauth_name"
  by (simp_all add: setabi_name_def newaccount_name_def updateauth_name_def deleteauth_name_def)

lemma update_account_setabi_unfold:
  assumes "account a = system_account_name" "name a = setabi_name"
    "unpack_setabi L (data a) = Some sa"
  shows "update_account L a s =
     update_account_setabi L sa (to_milliseconds (clock s (ticks s)))
       (s\<lparr>effects := effects s @ [Called_update_account a], ticks := Suc (ticks s)\<rparr>)"
  using assms
  by (simp add: update_account_def setabi_name_distinct now_milliseconds_def time_point_now_def)

lemma update_account_setabi_not_found:
  assumes "length (account_hits s n) \<noteq> 1" "setabi_account sa = n"
  shows "effects (update_account_setabi L sa now s) =
           effects s @ [Cache_erase n, Search accounts_type (account_query n),
             Index accounts_type (Object_v [(''name'', Name_v n), (''createAt'', Int_v now)]) None,
             Search accounts_type (account_query n)]"
    and "docs (elastic_client (update_account_setabi L sa now s)) =
           docs (elastic_client s) @
             [\<lparr>doc_type = accounts_type, doc_id = auto_id (auto_ids (elastic_client s)),
               doc_source = Object_v [(''name'', Name_v n), (''createAt'', Int_v now)]\<rparr>]"
  using assms
  by (simp_all add: update_account_setabi_eq find_account_state create_account_def es_index_def
      client_index_def account_query_def)

lemma update_account_setabi_found:
  assumes "length (account_hits s n) = 1" "setabi_account sa = n"
  shows "effects (update_account_setabi L sa now s) =
           effects s @ [Cache_erase n, Search accounts_type (account_query n),
             Search accounts_type (account_query n)]"
    and "elastic_client (update_account_setabi L sa now s) = elastic_client s"
  using assms
  by (simp_all add: update_account_setabi_eq find_account_state account_query_def)

text \<open>
  C10, as amended. \<^verbatim>\<open>find_account\<close> reports an account as existing only when the search
  returns exactly one hit; with no hit and with more than one it returns false. Hence, for
  an account with no or several \<^verbatim>\<open>accounts\<close> documents, \<^verbatim>\<open>search_abi_by_account\<close> finds
  nothing, and the \<^verbatim>\<open>setabi\<close> projection creates a new \<^verbatim>\<open>accounts\<close> document, added to the
  store beside the existing ones. \<^verbatim>\<open>get_abi_serializer\<close> yields no serializer for such an
  account when the account is not in the ABI cache: only then does it search. For a cached
  account it returns the cached serializer whatever the store holds.
\<close>

theorem find_account_exactly_one:
  "fst (find_account n s) =
     (if length (account_hits s n) = 1
      then Returned (Some (hit_of (elastic_client s) (hd (account_hits s n))))
      else Returned None) \<and>
   (length (account_hits s n) \<noteq> 1 \<longrightarrow> fst (search_abi_by_account n s) = Returned None) \<and>
   (length (account_hits s n) \<noteq> 1 \<and> cache_find n (abi_cache_index s) = None \<longrightarrow>
      fst (get_abi_serializer L n s) = None) \<and>
   (length (account_hits s n) \<noteq> 1 \<and> account a = system_account_name \<and> name a = setabi_name \<and>
    unpack_setabi L (data a) = Some sa \<and> setabi_account sa = n \<longrightarrow>
      documents_written (effects_since s (update_account L a s)) =
        [(accounts_type,
          Object_v [(''name'', Name_v n),
                    (''createAt'', Int_v (to_milliseconds (clock s (ticks s))))], None)] \<and>
      docs (elastic_client (update_account L a s)) =
        docs (elastic_client s) @
          [\<lparr>doc_type = accounts_type, doc_id = auto_id (auto_ids (elastic_client s)),
            doc_source = Object_v [(''name'', Name_v n),
                    (''createAt'', Int_v (to_milliseconds (clock s (ticks s))))]\<rparr>])"
proof -
  have "documents_written (effects_since s (update_account L a s)) =
        [(accounts_type,
          Object_v [(''name'', Name_v n),
                    (''createAt'', Int_v (to_milliseconds (clock s (ticks s))))], None)] \<and>
      docs (elastic_client (update_account L a s)) =
        docs (elastic_client s) @
          [\<lparr>doc_type = accounts_type, doc_id = auto_id (auto_ids (elastic_client s)),
            doc_source = Object_v [(''name'', Name_v n),
                    (''createAt'', Int_v (to_milliseconds (clock s (ticks s))))]\<rparr>]"
    if h: "length (account_hits s n) \<noteq> 1" "account a = system_account_name" "name a = setabi_name"
      "unpack_setabi L (data a) = Some sa" "setabi_account sa = n"
  proof -
    define s' where "s' = s\<lparr>effects := effects s @ [Called_update_account a], ticks := Suc (ticks s)\<rparr>"
    have "length (account_hits s' n) \<noteq> 1"
      using h(1) by (simp add: s'_def account_hits_def)
    from update_account_setabi_not_found [OF this h(5), of L "to_milliseconds (clock s (ticks s))"]
    show ?thesis
      by (simp add: update_account_setabi_unfold [OF h(2,3,4)] s'_def [symmetric])
         (simp add: s'_def effects_since_def)
  qed
  then show ?thesis
    using search_abi_by_account_fst [of s n] get_abi_serializer_not_found [of s n L]
    by (simp add: find_account_fst)
qed


lemma alice_not_system: "alice \<noteq> system_account_name" "system_account_name \<noteq> alice"
  by (simp_all add: alice_def system_account_name_def)

lemma account_hits_examples:
  "account_hits initial_impl alice = []"
  "length (account_hits one_alice alice) = 1"
  "length (account_hits two_alices alice) = 2"
  by (simp_all add: account_hits_def account_query_def hits_of_def one_alice_def two_alices_def
      create_account_def es_index_def client_index_def initial_impl_def alice_not_system
      accounts_type_def)

lemma setabi_action_decodes:
  "account setabi_action = system_account_name" "name setabi_action = setabi_name"
  "unpack_setabi example_lib (data setabi_action) = Some \<lparr>setabi_account = alice, setabi_abi = [2, 3]\<rparr>"
  "unpack_abi_def example_lib [2, 3] = Some \<lparr>version = ''eosio::abi/1.0'', structs = []\<rparr>"
  by (simp_all add: setabi_action_def example_lib_def)

theorem find_account_exactly_one_witness:
  "fst (find_account alice two_alices) = Returned None \<and>
   fst (find_account alice initial_impl) = Returned None \<and>
   fst (get_abi_serializer example_lib alice two_alices) = None \<and>
   documents_written (effects_since two_alices (update_account example_lib setabi_action two_alices)) =
     [(accounts_type, Object_v [(''name'', Name_v alice), (''createAt'', Int_v 1)], None)] \<and>
   length (docs (elastic_client (update_account example_lib setabi_action two_alices))) = 4"
proof -
  have c: "cache_find alice (abi_cache_index two_alices) = None"
    "to_milliseconds (clock two_alices (ticks two_alices)) = 1"
    "length (docs (elastic_client two_alices)) = 3"
    by (simp_all add: two_alices_def create_account_def es_index_def initial_impl_def
        cache_find_def to_milliseconds_def client_index_def)
  show ?thesis
    using find_account_exactly_one [of alice two_alices example_lib setabi_action
        "\<lparr>setabi_account = alice, setabi_abi = [2, 3]\<rparr>"]
      find_account_exactly_one [of alice initial_impl example_lib setabi_action
        "\<lparr>setabi_account = alice, setabi_abi = [2, 3]\<rparr>"]
      account_hits_examples setabi_action_decodes c
    by simp
qed

text \<open>
  C7. The claim is that \<^verbatim>\<open>update_account\<close>, for a \<^verbatim>\<open>setabi\<close> action of the system account,
  erases the cache entry before any call of the client, creates the \<^verbatim>\<open>accounts\<close> document
  when there is none, and then upserts the document with the decoded ABI and \<^verbatim>\<open>updateAt\<close>.
  The code does the first two and then fails before the upsert: \<^verbatim>\<open>find_account\<close> hands back
  the hit itself (with \<^verbatim>\<open>_id\<close> and \<^verbatim>\<open>_source\<close>), and \<^verbatim>\<open>account["name"]\<close> on a hit throws
  \<^verbatim>\<open>key_not_found_exception\<close>, which the handler of \<^verbatim>\<open>update_account\<close> swallows. (The sibling
  \<^verbatim>\<open>search_abi_by_account\<close> reads the same hit through \<^verbatim>\<open>["_source"]\<close>.) Evaluated here for a
  well-formed \<^verbatim>\<open>setabi\<close> of alice: with one document for alice in the store, the calls are
  the cache erase and two searches, the store is unchanged and the document has no \<^verbatim>\<open>abi\<close>;
  with no document for alice, the document is created and nothing follows the second
  search.
\<close>

theorem setabi_never_upserts:
  "effects_since one_alice (update_account example_lib setabi_action one_alice) =
     [Called_update_account setabi_action, Cache_erase alice,
      Search accounts_type (account_query alice), Search accounts_type (account_query alice)] \<and>
   elastic_client (update_account example_lib setabi_action one_alice) = elastic_client one_alice \<and>
   get_key (doc_source (last (docs (elastic_client
      (update_account example_lib setabi_action one_alice))))) ''abi'' = None \<and>
   effects_since initial_impl (update_account example_lib setabi_action initial_impl) =
     [Called_update_account setabi_action, Cache_erase alice,
      Search accounts_type (account_query alice),
      Index accounts_type (Object_v [(''name'', Name_v alice), (''createAt'', Int_v 1)]) None,
      Search accounts_type (account_query alice)]"
proof -
  define s1 where "s1 = one_alice\<lparr>effects := effects one_alice @ [Called_update_account setabi_action],
     ticks := Suc (ticks one_alice)\<rparr>"
  define s0 where "s0 = initial_impl\<lparr>effects := effects initial_impl @ [Called_update_account setabi_action],
     ticks := Suc (ticks initial_impl)\<rparr>"
  have h1: "length (account_hits s1 alice) = 1"
    using account_hits_examples(2) by (simp add: s1_def account_hits_def)
  have h0: "length (account_hits s0 alice) \<noteq> 1"
    using account_hits_examples(1) by (simp add: s0_def account_hits_def)
  have t: "to_milliseconds (clock initial_impl (ticks initial_impl)) = 1"
    "effects initial_impl = []"
    by (simp_all add: initial_impl_def to_milliseconds_def)
  have d: "get_key (doc_source (last (docs (elastic_client one_alice)))) ''abi'' = None"
    by (simp add: one_alice_def create_account_def es_index_def client_index_def initial_impl_def)
  have a: "update_account example_lib setabi_action one_alice =
      update_account_setabi example_lib \<lparr>setabi_account = alice, setabi_abi = [2, 3]\<rparr>
        (to_milliseconds (clock one_alice (ticks one_alice))) s1"
    unfolding s1_def by (rule update_account_setabi_unfold [OF setabi_action_decodes(1,2,3)])
  have b: "update_account example_lib setabi_action initial_impl =
      update_account_setabi example_lib \<lparr>setabi_account = alice, setabi_abi = [2, 3]\<rparr>
        (to_milliseconds (clock initial_impl (ticks initial_impl))) s0"
    unfolding s0_def by (rule update_account_setabi_unfold [OF setabi_action_decodes(1,2,3)])
  show ?thesis
    using update_account_setabi_found [OF h1, of "\<lparr>setabi_account = alice, setabi_abi = [2, 3]\<rparr>"
        example_lib "to_milliseconds (clock one_alice (ticks one_alice))"]
      update_account_setabi_not_found(1) [OF h0, of "\<lparr>setabi_account = alice, setabi_abi = [2, 3]\<rparr>"
        example_lib "to_milliseconds (clock initial_impl (ticks initial_impl))"]
      d t
    by (simp add: a b effects_since_def) (simp add: s1_def s0_def)
qed

text \<open>
  In general: whatever the action and the state, every document that \<^verbatim>\<open>update_account\<close>
  hands to the store is a new one; no call carries an id.
\<close>

lemma update_account_never_upserts:
  "w \<in> set (documents_written (effects_since s (update_account L a s))) \<Longrightarrow> snd (snd w) = None"
proof -
  obtain es where es: "effects (update_account L a s) = effects s @ Called_update_account a # es"
    "projection_only es"
    using update_account_effects by blast
  assume "w \<in> set (documents_written (effects_since s (update_account L a s)))"
  then have "w \<in> set (documents_written es)"
    by (simp add: effects_since_def es(1))
  then show ?thesis
    using es(2) by (simp add: projection_only_def)
qed

section \<open>The walk over the action traces\<close>

lemma walk_events_append:
  "walk_events as es \<Longrightarrow> walk_events bs fs \<Longrightarrow> walk_events (as @ bs) (es @ fs)"
  by (simp add: walk_events_def)

lemma appends_walk_trans:
  "appends (walk_events as) s s' \<Longrightarrow> appends (walk_events bs) s' s'' \<Longrightarrow>
   appends (walk_events (as @ bs)) s s''"
  by (rule appends_trans [of "walk_events as" s s' "walk_events bs" s'' "walk_events (as @ bs)"])
     (simp_all add: walk_events_append)

lemma type_names_distinct:
  "trans_traces_type \<notin> {accounts_type, pub_keys_type, account_controls_type}"
  "trans_traces_type \<noteq> action_traces_type"
  by (simp_all add: trans_traces_type_def accounts_type_def pub_keys_type_def
      account_controls_type_def action_traces_type_def)

lemma projection_only_walk: "projection_only es \<Longrightarrow> walk_events [] es"
  using type_names_distinct(1) by (auto simp: projection_only_def walk_events_def)

lemma reads_walk: "reads s s' \<Longrightarrow> appends (walk_events []) s s'"
  unfolding reads_def
  by (erule conjE, erule appends_weaken)
     (simp add: only_searches_projection_only projection_only_walk)

lemma update_account_walk: "appends (walk_events [a]) s (update_account L a s)"
proof -
  obtain es where es: "effects (update_account L a s) = effects s @ Called_update_account a # es"
    "projection_only es"
    using update_account_effects by blast
  have "walk_events [a] (Called_update_account a # es)"
    using projection_only_walk [OF es(2)] by (simp add: walk_events_def)
  then show ?thesis
    using es(1) update_account_same_config [of s L a] by (auto simp: appends_def)
qed

lemma filter_include_same_config:
  "same_config s s' \<Longrightarrow> filter_include s' a = filter_include s a"
  by (simp add: same_config_def filter_include_sets)

lemma appends_same_config: "appends P s s' \<Longrightarrow> same_config s s'"
  by (simp add: appends_def)

lemma projected_Cons:
  "projected exec (n # ns) =
     (if exec \<and> receiver (receipt n) = system_account_name then [act n] else []) @ projected exec ns"
  by (simp add: projected_def)

lemma projected_append: "projected exec (ms @ ns) = projected exec ms @ projected exec ns"
  by (simp add: projected_def)

lemma same_config_flags:
  "same_config s s' \<Longrightarrow>
     start_block_reached s' = start_block_reached s \<and>
     store_action_traces s' = store_action_traces s \<and>
     store_transaction_traces s' = store_transaction_traces s"
  by (simp add: same_config_def)

lemma add_action_trace_walked:
  "walked (snd bs) (add_action_trace L t exec now bs) (nodes t) exec False"
  "walked (snd (snd r)) (add_inline_traces L ts exec now r) (nodes_of_list ts) exec (fst r)"
proof (induction L t exec now bs and L ts exec now r rule: add_action_trace_add_inline_traces.induct)
  case (1 L r a inl exec now bulk s)
  define s1 where "s1 = (if exec \<and> receiver r = system_account_name then update_account L a s else s)"
  define own where "own = (if exec \<and> receiver r = system_account_name then [a] else [])"
  have step1: "appends (walk_events own) s s1"
    unfolding s1_def own_def
    by (simp add: update_account_walk appends_refl walk_events_def)
  note c1 = appends_same_config [OF step1]
  have cond: "(start_block_reached s1 \<and> store_action_traces s1 \<and> filter_include s1 a) =
      (start_block_reached s \<and> store_action_traces s \<and> filter_include s a)"
    using same_config_flags [OF c1] filter_include_same_config [OF c1] by simp
  show ?case
  proof (cases "start_block_reached s1 \<and> store_action_traces s1 \<and> filter_include s1 a")
    case True
    define s2 where "s2 = snd (base_action_trace_variant L (Action_trace r a inl) s1)"
    define doc where "doc = AList.update ''createdAt'' (Int_v now)
        (fst (base_action_trace_variant L (Action_trace r a inl) s1))"
    define res where "res = add_inline_traces L inl exec now
        (True, bulk @ [(action_traces_type, Object_v doc)], s2)"
    have step2: "appends (walk_events []) s1 s2"
      unfolding s2_def by (rule reads_walk [OF base_action_trace_variant_reads])
    have ih: "walked s2 res (nodes_of_list inl) exec True"
      using "1.IH"(1) [OF s1_def True refl _ refl, of "fst (base_action_trace_variant L (Action_trace r a inl) s1)" s2]
      by (simp add: s2_def res_def doc_def)
    have eq: "add_action_trace L (Action_trace r a inl) exec now (bulk, s) = res"
      using True by (simp add: s1_def [symmetric] res_def doc_def s2_def case_prod_beta Let_def)
    have "appends (walk_events (own @ [] @ projected exec (nodes_of_list inl))) s (snd (snd res))"
      using ih by (intro appends_walk_trans [OF step1] appends_walk_trans [OF step2]) (simp add: walked_def)
    moreover have "fst res"
      using ih by (simp add: walked_def)
    ultimately show ?thesis
      unfolding eq using True cond
      by (auto simp: walked_def projected_Cons own_def split: if_splits)
  next
    case False
    define res where "res = add_inline_traces L inl exec now (False, bulk, s1)"
    have ih: "walked s1 res (nodes_of_list inl) exec False"
      using "1.IH"(2) [OF s1_def False] by (simp add: res_def)
    have eq: "add_action_trace L (Action_trace r a inl) exec now (bulk, s) = res"
      using False by (auto simp: s1_def [symmetric] res_def Let_def)
    have "appends (walk_events (own @ projected exec (nodes_of_list inl))) s (snd (snd res))"
      using ih by (intro appends_walk_trans [OF step1]) (simp add: walked_def)
    moreover have "fst res \<longleftrightarrow> start_block_reached s \<and> store_action_traces s \<and>
        (\<exists>n \<in> set (nodes_of_list inl). filter_include s (act n))"
      using ih same_config_flags [OF c1] filter_include_same_config [OF c1]
      by (simp add: walked_def)
    ultimately show ?thesis
      unfolding eq using False cond
      by (auto simp: walked_def projected_Cons own_def split: if_splits)
  qed
next
  case (2 L exec now r)
  show ?case
    by (simp add: walked_def projected_def appends_refl walk_events_def)
next
  case (3 L t ts exec now added bulk s)
  define res1 where "res1 = add_action_trace L t exec now (bulk, s)"
  define s1 where "s1 = snd (snd res1)"
  define res where "res = add_inline_traces L ts exec now (added \<or> fst res1, fst (snd res1), s1)"
  have ih1: "walked s res1 (nodes t) exec False"
    using "3.IH"(1) by (simp add: res1_def)
  have ih2: "walked s1 res (nodes_of_list ts) exec (added \<or> fst res1)"
    using "3.IH"(2) [OF refl, of "fst res1" "snd res1" "fst (snd res1)" s1]
    by (simp add: res1_def s1_def res_def)
  have eq: "add_inline_traces L (t # ts) exec now (added, bulk, s) = res"
    by (simp add: res_def s1_def res1_def case_prod_beta Let_def)
  have c1: "same_config s s1"
    using ih1 by (auto simp: walked_def s1_def dest: appends_same_config)
  have "appends (walk_events (projected exec (nodes t) @ projected exec (nodes_of_list ts))) s (snd (snd res))"
    using ih1 ih2 by (intro appends_walk_trans [of _ s s1]) (simp_all add: walked_def s1_def)
  moreover have "fst res \<longleftrightarrow> added \<or> (start_block_reached s \<and> store_action_traces s \<and>
        (\<exists>n \<in> set (nodes t) \<union> set (nodes_of_list ts). filter_include s (act n)))"
    using ih1 ih2 same_config_flags [OF c1] filter_include_same_config [OF c1]
    by (auto simp: walked_def)
  ultimately show ?case
    unfolding eq by (simp add: walked_def projected_append)
qed

section \<open>Applied transaction traces\<close>

lemma add_action_trace_bulk:
  "fst ` set (fst (snd (add_action_trace L t exec now bs))) \<subseteq>
     insert action_traces_type (fst ` set (fst bs))"
  "fst ` set (fst (snd (add_inline_traces L ts exec now r))) \<subseteq>
     insert action_traces_type (fst ` set (fst (snd r)))"
proof (induction L t exec now bs and L ts exec now r rule: add_action_trace_add_inline_traces.induct)
  case (1 L r a inl exec now bulk s)
  define s1 where "s1 = (if exec \<and> receiver r = system_account_name then update_account L a s else s)"
  show ?case
  proof (cases "start_block_reached s1 \<and> store_action_traces s1 \<and> filter_include s1 a")
    case True
    show ?thesis
      using "1.IH"(1) [OF s1_def True refl _ refl,
          of "fst (base_action_trace_variant L (Action_trace r a inl) s1)"
             "snd (base_action_trace_variant L (Action_trace r a inl) s1)"] True
      by (auto simp: s1_def [symmetric] case_prod_beta Let_def)
  next
    case False
    show ?thesis
      using "1.IH"(2) [OF s1_def False] False
      by (auto simp: s1_def [symmetric] Let_def)
  qed
next
  case (2 L exec now r)
  show ?case by auto
next
  case (3 L t ts exec now added bulk s)
  define res1 where "res1 = add_action_trace L t exec now (bulk, s)"
  define res2 where "res2 = add_inline_traces L ts exec now
     (added \<or> fst res1, fst (snd res1), snd (snd res1))"
  have a: "fst ` set (fst (snd res1)) \<subseteq> insert action_traces_type (fst ` set bulk)"
    using "3.IH"(1) by (simp add: res1_def)
  have b: "fst ` set (fst (snd res2)) \<subseteq> insert action_traces_type (fst ` set (fst (snd res1)))"
    using "3.IH"(2) [OF refl, of "fst res1" "snd res1" "fst (snd res1)" "snd (snd res1)"]
    by (simp add: res1_def res2_def)
  have eq: "add_inline_traces L (t # ts) exec now (added, bulk, s) = res2"
    by (simp add: res2_def res1_def case_prod_beta Let_def)
  have "fst ` set (fst (snd res2)) \<subseteq> insert action_traces_type (fst ` set bulk)"
    using a b by blast
  then show ?case
    unfolding eq by simp
qed

lemma process_applied_transaction'_effects:
  "\<exists>es. effects (process_applied_transaction' L t s) = effects s @ es \<and>
     update_account_calls es =
       projected (transaction_executed t) (nodes_of_list (action_traces t)) \<and>
     filter (\<lambda>x. x = trans_traces_type) (written_types es) =
       (if start_block_reached s \<and> store_transaction_traces s \<and> store_action_traces s \<and>
           (\<exists>n \<in> set (nodes_of_list (action_traces t)). filter_include s (act n))
        then [trans_traces_type] else [])"
proof -
  define now where "now = fst (now_milliseconds s)"
  define s0 where "s0 = snd (now_milliseconds s)"
  define exec where "exec = transaction_executed t"
  define res where "res = add_inline_traces L (action_traces t) exec now (False, [], s0)"
  define s1 where "s1 = snd (snd res)"
  define s2 where "s2 = (if fst res then es_bulk_perform (fst (snd res)) s1 else s1)"
  define ns where "ns = nodes_of_list (action_traces t)"
  define cond where "cond \<longleftrightarrow> start_block_reached s \<and> store_action_traces s \<and>
     (\<exists>n \<in> set ns. filter_include s (act n))"
  have c0: "same_config s s0" "effects s0 = effects s"
    by (simp_all add: s0_def now_milliseconds_def time_point_now_def same_config_def)
  have w: "walked s0 res ns exec False"
    using add_action_trace_walked(2) [of "(False, [], s0)" L "action_traces t" exec now]
    by (simp add: res_def ns_def)
  have a1: "appends (walk_events (projected exec ns)) s0 s1"
    using w by (simp add: walked_def s1_def)
  have f: "fst res \<longleftrightarrow> cond"
    using w same_config_flags [OF c0(1)] filter_include_same_config [OF c0(1)]
    by (simp add: walked_def cond_def)
  have b: "fst ` set (fst (snd res)) \<subseteq> {action_traces_type}"
    using add_action_trace_bulk(2) [of L "action_traces t" exec now "(False, [], s0)"]
    by (simp add: res_def)
  have "walk_events [] [Bulk (fst (snd res))]"
    using b type_names_distinct(2) by (auto simp: walk_events_def)
  then have a2: "appends (walk_events []) s1 s2"
    by (simp add: s2_def appends_def same_config_def es_bulk_perform_def walk_events_def)
  have a12: "appends (walk_events (projected exec ns)) s0 s2"
    using appends_walk_trans [OF a1 a2] by simp
  have c2: "same_config s s2"
    using same_config_trans [OF c0(1) appends_same_config [OF a12]] .
  obtain es where es: "effects s2 = effects s @ es" "walk_events (projected exec ns) es"
    using a12 c0(2) by (auto simp: appends_def)
  have quiet: "filter (\<lambda>x. x = trans_traces_type) (written_types es) = []"
    using es(2) by (auto simp: walk_events_def filter_empty_conv)
  define s3 where "s3 = snd (transaction_trace_variant L t s2)"
  define doc where "doc = Object_v (AList.update ''createAt'' (Int_v now)
      (fst (transaction_trace_variant L t s2)))"
  have unfolded: "process_applied_transaction' L t s =
      (if \<not> start_block_reached s2 \<or> \<not> store_transaction_traces s2 then s2
       else if \<not> fst res then s2
       else es_index trans_traces_type doc None s3)"
    unfolding process_applied_transaction'_def doc_def s3_def s2_def s1_def res_def exec_def
      s0_def now_def
    by (simp add: case_prod_beta Let_def)
  show ?thesis
  proof (cases "start_block_reached s \<and> store_transaction_traces s \<and> cond")
    case False
    then have "process_applied_transaction' L t s = s2"
      using same_config_flags [OF c2] f by (auto simp: unfolded)
    then show ?thesis
      using es quiet False
      by (auto simp: walk_events_def exec_def ns_def cond_def)
  next
    case True
    have eq: "process_applied_transaction' L t s = es_index trans_traces_type doc None s3"
      using True same_config_flags [OF c2] f by (auto simp: unfolded)
    obtain fs where fs: "effects s3 = effects s2 @ fs" "only_searches fs"
      using reads_effects [OF transaction_trace_variant_reads [of s2 L t]] by (auto simp: s3_def)
    have "effects (process_applied_transaction' L t s) =
        effects s @ (es @ fs @ [Index trans_traces_type doc None])"
      by (simp add: eq es_index_def fs(1) es(1))
    then show ?thesis
      using es(2) quiet True only_searches_quiet [OF fs(2)]
      by (auto simp: walk_events_def exec_def ns_def cond_def)
  qed
qed

lemma process_applied_transaction_calls:
  "start_block_reached s \<Longrightarrow>
   update_account_calls (effects_since s (process_applied_transaction L t s)) =
     projected (transaction_executed t) (nodes_of_list (action_traces t))"
  using process_applied_transaction'_effects [of L t s]
  by (auto simp: process_applied_transaction_def effects_since_def)


text \<open>
  The worker \<^verbatim>\<open>_process_applied_transaction\<close> itself projects whatever the gate is: its walk
  calls \<^verbatim>\<open>update_account\<close> before, and outside, its own tests of \<^verbatim>\<open>start_block_reached\<close>.
\<close>

lemma worker_projects_regardless_of_gate:
  "update_account_calls (effects_since s (process_applied_transaction' L t s)) =
     projected (transaction_executed t) (nodes_of_list (action_traces t))"
  using process_applied_transaction'_effects [of L t s]
  by (auto simp: effects_since_def)

text \<open>
  C1. The claim is that for every applied trace the consumer processes, \<^verbatim>\<open>update_account\<close>
  is invoked on the action of every node that is executed and received by the system
  account, whether or not the gate is open and whatever \<^verbatim>\<open>store_action_traces\<close> is. The code
  aims at this (see the lemma above, and the remark in \<^verbatim>\<open>process_accepted_transaction\<close> that
  \<^verbatim>\<open>setabi\<close> must always be captured) and does it while the gate is open, for every value of
  \<^verbatim>\<open>store_action_traces\<close> (lemma \<open>process_applied_transaction_calls\<close>). But
  \<^verbatim>\<open>process_applied_transaction\<close> calls the worker only under \<^verbatim>\<open>if( start_block_reached )\<close>,
  which leaves the worker's own tests of the gate without effect and the projection undone
  while the gate is closed. Evaluated here with the gate at block 100 and not yet reached,
  for an executed transaction whose only action trace is a \<^verbatim>\<open>newaccount\<close> received by the
  system account: \<^verbatim>\<open>process_applied_transaction\<close> makes no call of \<^verbatim>\<open>update_account\<close>, where
  the worker would make the one the claim asks for.
\<close>

theorem projection_skipped_when_gate_closed:
  "transaction_executed newaccount_trace \<and>
   nodes_of_list (action_traces newaccount_trace) =
     [Action_trace \<lparr>receiver = system_account_name\<rparr> newaccount_action []] \<and>
   \<not> start_block_reached gate_at_100 \<and>
   update_account_calls (effects_since gate_at_100
     (process_applied_transaction example_lib newaccount_trace gate_at_100)) = [] \<and>
   update_account_calls (effects_since gate_at_100
     (process_applied_transaction' example_lib newaccount_trace gate_at_100)) = [newaccount_action]"
proof -
  have "projected (transaction_executed newaccount_trace)
      (nodes_of_list (action_traces newaccount_trace)) = [newaccount_action]"
    by (simp add: projected_def transaction_executed_def newaccount_trace_def)
  then have "update_account_calls (effects_since gate_at_100
     (process_applied_transaction' example_lib newaccount_trace gate_at_100)) = [newaccount_action]"
    by (simp add: worker_projects_regardless_of_gate)
  then show ?thesis
    by (simp add: transaction_executed_def newaccount_trace_def gate_at_100_def initial_impl_def
        process_applied_transaction_def effects_since_def)
qed

text \<open>
  On that trace the consumer and its worker differ: the guard of the consumer alone
  decides that the account is not projected.
\<close>

theorem projection_skipped_when_gate_closed_witness:
  "update_account_calls (effects_since gate_at_100
     (process_applied_transaction example_lib newaccount_trace gate_at_100)) \<noteq>
   update_account_calls (effects_since gate_at_100
     (process_applied_transaction' example_lib newaccount_trace gate_at_100))"
  using projection_skipped_when_gate_closed by simp





section \<open>The ABI cache\<close>

lemma link_by_last_access_set [simp]: "set (link_by_last_access e c) = insert e (set c)"
  by (induction c) auto

lemma link_by_last_access_length [simp]: "length (link_by_last_access e c) = Suc (length c)"
  by (induction c) auto

lemma link_by_last_access_sorted:
  "sorted (map last_accessed c) \<Longrightarrow> sorted (map last_accessed (link_by_last_access e c))"
  by (induction c) auto

lemma cache_insert_sorted:
  "sorted (map last_accessed c) \<Longrightarrow> sorted (map last_accessed (cache_insert e c))"
  by (simp add: cache_insert_def link_by_last_access_sorted)

lemma cache_insert_length: "length (cache_insert e c) \<le> Suc (length c)"
  by (simp add: cache_insert_def)

lemma cache_insert_set: "set c \<subseteq> set (cache_insert e c)"
  by (auto simp: cache_insert_def)

lemma cache_erase_sorted:
  "sorted (map last_accessed c) \<Longrightarrow> sorted (map last_accessed (cache_erase n c))"
  by (induction c) (auto simp: cache_erase_def)

lemma cache_erase_length: "length (cache_erase n c) \<le> length c"
  by (simp add: cache_erase_def)

lemma cache_modify_cases:
  obtains "cache_modify n t c = c"
  | before e after where "c = before @ e # after"
      "before = [] \<or> \<not> t < last_accessed (last before)"
      "after = [] \<or> \<not> last_accessed (hd after) < t"
      "cache_modify n t c = before @ e\<lparr>last_accessed := t\<rparr> # after"
  | before e after where "c = before @ e # after"
      "cache_modify n t c = link_by_last_access (e\<lparr>last_accessed := t\<rparr>) (before @ after)"
proof (cases "dropWhile (\<lambda>e. cache_account e \<noteq> n) c")
  case Nil
  have "cache_modify n t c = c"
    unfolding cache_modify_def Let_def Nil by simp
  then show ?thesis
    by (rule that(1))
next
  case (Cons e after)
  define before where "before = takeWhile (\<lambda>e. cache_account e \<noteq> n) c"
  have c: "c = before @ e # after"
    using takeWhile_dropWhile_id [of "\<lambda>e. cache_account e \<noteq> n" c] Cons by (simp add: before_def)
  show ?thesis
  proof (cases "(before = [] \<or> \<not> t < last_accessed (last before)) \<and>
                (after = [] \<or> \<not> last_accessed (hd after) < t)")
    case True
    then have "cache_modify n t c = before @ e\<lparr>last_accessed := t\<rparr> # after"
      using Cons by (simp add: cache_modify_def before_def Let_def)
    then show ?thesis
      using that(2) [OF c] True by blast
  next
    case False
    then have "cache_modify n t c = link_by_last_access (e\<lparr>last_accessed := t\<rparr>) (before @ after)"
      using Cons by (auto simp: cache_modify_def before_def Let_def)
    then show ?thesis
      using that(3) [OF c] by blast
  qed
qed

lemma cache_modify_length [simp]: "length (cache_modify n t c) = length c"
  by (rule cache_modify_cases [of n t c]) auto

lemma cache_modify_accounts [simp]:
  "cache_account ` set (cache_modify n t c) = cache_account ` set c"
  by (rule cache_modify_cases [of n t c]) auto

lemma sorted_last_le:
  "sorted (map f xs) \<Longrightarrow> xs \<noteq> [] \<Longrightarrow> x \<in> set xs \<Longrightarrow> (f x :: int) \<le> f (last xs)"
  by (induction xs) (auto split: if_splits)

lemma sorted_hd_le:
  "sorted (map f xs) \<Longrightarrow> x \<in> set xs \<Longrightarrow> (f (hd xs) :: int) \<le> f x"
  by (cases xs) auto

lemma cache_modify_sorted:
  assumes "sorted (map last_accessed c)"
  shows "sorted (map last_accessed (cache_modify n t c))"
proof (rule cache_modify_cases [of n t c])
  assume "cache_modify n t c = c"
  then show ?thesis using assms by simp
next
  fix before e after
  assume c: "c = before @ e # after"
    and b: "before = [] \<or> \<not> t < last_accessed (last before)"
    and a: "after = [] \<or> \<not> last_accessed (hd after) < t"
    and m: "cache_modify n t c = before @ e\<lparr>last_accessed := t\<rparr> # after"
  have sb: "sorted (map last_accessed before)" and sa: "sorted (map last_accessed after)"
    and ba: "\<forall>x \<in> set before. \<forall>y \<in> set after. last_accessed x \<le> last_accessed y"
    using assms by (auto simp: c sorted_append)
  have "\<forall>x \<in> set before. last_accessed x \<le> t"
    using b sorted_last_le [OF sb] by fastforce
  moreover have "\<forall>y \<in> set after. t \<le> last_accessed y"
    using a sorted_hd_le [OF sa] by fastforce
  ultimately show ?thesis
    using sb sa ba by (auto simp: m sorted_append)
next
  fix before e after
  assume c: "c = before @ e # after"
    and m: "cache_modify n t c = link_by_last_access (e\<lparr>last_accessed := t\<rparr>) (before @ after)"
  have "sorted (map last_accessed (before @ after))"
    using assms by (auto simp: c sorted_append)
  then show ?thesis
    unfolding m by (rule link_by_last_access_sorted)
qed


lemma purge_abi_cache_cache:
  "abi_cache_index (purge_abi_cache s) =
     (if length (abi_cache_index s) < abi_cache_size s then abi_cache_index s
      else tl (abi_cache_index s))"
  by (simp add: purge_abi_cache_def split: list.splits)

lemma search_abi_by_account_cache:
  "abi_cache_index (snd (search_abi_by_account n s)) = abi_cache_index s"
  "abi_cache_size (snd (search_abi_by_account n s)) = abi_cache_size s"
  by (simp_all add: search_abi_by_account_state)

lemma get_abi_serializer_cache:
  "abi_cache_index (snd (get_abi_serializer L n s)) = abi_cache_index s \<or>
   (\<exists>t. abi_cache_index (snd (get_abi_serializer L n s)) = cache_modify n t (abi_cache_index s)) \<or>
   abi_cache_index (snd (get_abi_serializer L n s)) = abi_cache_index (purge_abi_cache s) \<or>
   (\<exists>e. abi_cache_index (snd (get_abi_serializer L n s)) =
      cache_insert e (abi_cache_index (purge_abi_cache s)))"
proof (cases "good n \<and> cache_find n (abi_cache_index s) = None")
  case False
  then show ?thesis
    by (auto simp: get_abi_serializer_def time_point_now_def split: option.splits)
next
  case True
  obtain r s1 where r: "search_abi_by_account n s = (r, s1)"
    by (cases "search_abi_by_account n s")
  then have s1: "s1 = s\<lparr>effects := effects s @ [Search accounts_type (Term_query ''name'' (Name_v n))]\<rparr>"
    using search_abi_by_account_state [of n s] by simp
  have p: "abi_cache_index (purge_abi_cache s1) = abi_cache_index (purge_abi_cache s)"
    by (simp add: purge_abi_cache_cache s1)
  show ?thesis
    using True r p
    by (auto simp: get_abi_serializer_def time_point_now_def Let_def s1
        split: option.splits attempt.splits prod.splits)
qed

lemma get_abi_serializer_size:
  "abi_cache_size (snd (get_abi_serializer L n s)) = abi_cache_size s"
  using get_abi_serializer_appends [of s L n] by (simp add: appends_def same_config_def)

lemma cache_ok_purged:
  assumes "cache_ok s" "0 < abi_cache_size s"
  shows "sorted (map last_accessed (abi_cache_index (purge_abi_cache s)))"
    and "length (abi_cache_index (purge_abi_cache s)) < abi_cache_size s"
  using assms
  by (auto simp: cache_ok_def purge_abi_cache_cache map_tl sorted_tl)

lemma get_abi_serializer_cache_ok:
  assumes "cache_ok s" "0 < abi_cache_size s"
  shows "cache_ok (snd (get_abi_serializer L n s))"
proof -
  note p = cache_ok_purged [OF assms]
  have "length (cache_insert e (abi_cache_index (purge_abi_cache s))) \<le> abi_cache_size s" for e
    using cache_insert_length [of e "abi_cache_index (purge_abi_cache s)"] p(2) by simp
  then show ?thesis
    using get_abi_serializer_cache [of L n s] assms p
    by (auto simp: cache_ok_def get_abi_serializer_size cache_modify_sorted cache_insert_sorted)
qed


lemma projection_steps_cache [simp]:
  "abi_cache_index (create_account n now s) = abi_cache_index s"
  "abi_cache_index (add_pub_keys ks n p now s) = abi_cache_index s"
  "abi_cache_index (add_account_control cs n p now s) = abi_cache_index s"
  "abi_cache_index (remove_pub_keys n p s) = abi_cache_index s"
  "abi_cache_index (remove_account_control n p s) = abi_cache_index s"
  "abi_cache_index (snd (find_account n s)) = abi_cache_index s"
  "abi_cache_index (snd (now_milliseconds s)) = abi_cache_index s"
  by (simp_all add: create_account_def add_pub_keys_def add_account_control_def
      remove_pub_keys_def remove_account_control_def es_index_def es_bulk_perform_def
      es_delete_by_query_def find_account_state now_milliseconds_def time_point_now_def)

lemma update_account_setabi_cache:
  "abi_cache_index (update_account_setabi L sa now s) =
     cache_erase (setabi_account sa) (abi_cache_index s)"
  by (simp add: update_account_setabi_eq Let_def)

lemma update_account_cache:
  "abi_cache_index (update_account L a s) = abi_cache_index s \<or>
   (\<exists>n. abi_cache_index (update_account L a s) = cache_erase n (abi_cache_index s))"
  by (auto simp: update_account_def Let_def case_prod_beta update_account_setabi_cache
      split: option.splits)

lemma update_account_cache_ok:
  assumes "cache_ok s"
  shows "cache_ok (update_account L a s)"
proof -
  have "abi_cache_size (update_account L a s) = abi_cache_size s"
    using update_account_same_config [of s L a] by (simp add: same_config_def)
  moreover have "length (cache_erase n (abi_cache_index s)) \<le> abi_cache_size s" for n
    using cache_erase_length [of n "abi_cache_index s"] assms by (simp add: cache_ok_def)
  ultimately show ?thesis
    using update_account_cache [of L a s] assms
    by (auto simp: cache_ok_def cache_erase_sorted)
qed

lemma run_op_cache_ok:
  "cache_ok s \<Longrightarrow> 0 < abi_cache_size s \<Longrightarrow>
   cache_ok (run_op L s op) \<and> abi_cache_size (run_op L s op) = abi_cache_size s"
  using update_account_same_config [of s L]
  by (cases op)
     (auto simp: get_abi_serializer_cache_ok get_abi_serializer_size update_account_cache_ok
       same_config_def)

lemma run_ops_cache_ok:
  "cache_ok s \<Longrightarrow> 0 < abi_cache_size s \<Longrightarrow>
   cache_ok (run_ops L ops s) \<and> abi_cache_size (run_ops L ops s) = abi_cache_size s"
proof (induction ops arbitrary: s)
  case Nil
  then show ?case by (simp add: run_ops_def)
next
  case (Cons op ops)
  have "cache_ok (run_op L s op)" "0 < abi_cache_size (run_op L s op)"
    using run_op_cache_ok [OF Cons.prems, of L op] Cons.prems(2) by simp_all
  from Cons.IH [OF this] show ?case
    using run_op_cache_ok [OF Cons.prems, of L op] by (simp add: run_ops_def)
qed

lemma get_abi_serializer_evictions:
  assumes "cache_ok s"
  shows "evictions_lru s (snd (get_abi_serializer L n s))"
proof -
  define c where "c = abi_cache_index s"
  define c' where "c' = abi_cache_index (snd (get_abi_serializer L n s))"
  define p where "p = abi_cache_index (purge_abi_cache s)"
  have sorted: "sorted (map last_accessed c)"
    using assms by (simp add: cache_ok_def c_def)
  have least: "abi_cache_size s \<le> length c \<and> (\<forall>x \<in> set c. last_accessed e \<le> last_accessed x)"
    if "e \<in> set c" "e \<notin> set p" for e
  proof -
    have full: "\<not> length c < abi_cache_size s" and p: "p = tl c"
      using that by (auto simp: p_def c_def purge_abi_cache_cache split: if_splits)
    then have "e = hd c"
      using that by (cases c) auto
    then show ?thesis
      using full sorted_hd_le [OF sorted] by auto
  qed
  have "c' = c \<or> (\<exists>t. c' = cache_modify n t c) \<or> c' = p \<or> (\<exists>e. c' = cache_insert e p)"
    using get_abi_serializer_cache [of L n s] by (simp add: c_def c'_def p_def)
  then have "set p \<subseteq> set c' \<or> cache_account ` set c' = cache_account ` set c"
  proof (elim disjE exE)
    assume "c' = c"
    then show ?thesis by simp
  next
    fix t assume "c' = cache_modify n t c"
    then show ?thesis by simp
  next
    assume "c' = p"
    then show ?thesis by simp
  next
    fix e assume "c' = cache_insert e p"
    then show ?thesis by (simp add: cache_insert_set)
  qed
  then have "abi_cache_size s \<le> length c \<and> (\<forall>x \<in> set c. last_accessed e \<le> last_accessed x)"
    if "e \<in> set c" "cache_account e \<notin> cache_account ` set c'" for e
    using that least [of e] by blast
  then show ?thesis
    by (simp add: evictions_lru_def c_def c'_def)
qed

text \<open>
  C3. Starting from the empty cache, after every sequence of \<^verbatim>\<open>get_abi_serializer\<close> and
  \<^verbatim>\<open>update_account\<close> calls (the \<^verbatim>\<open>setabi\<close> branch of the latter erases an entry) the cache
  holds at most \<^verbatim>\<open>abi_cache_size\<close> entries; and whenever the next \<^verbatim>\<open>get_abi_serializer\<close>
  removes an entry, the cache was at capacity and the entry removed is one whose
  \<^verbatim>\<open>last_accessed\<close> is least among the cached entries. The configured capacity is positive:
  \<^verbatim>\<open>plugin_initialize\<close> assigns 2048 before the consumer starts.
\<close>

theorem abi_cache_bounded_lru:
  assumes "abi_cache_index s = []" and "0 < abi_cache_size s"
  shows "length (abi_cache_index (run_ops L ops s)) \<le> abi_cache_size s \<and>
         evictions_lru (run_ops L ops s) (snd (get_abi_serializer L n (run_ops L ops s)))"
proof -
  have "cache_ok s"
    using assms(1) by (simp add: cache_ok_def)
  then have "cache_ok (run_ops L ops s) \<and> abi_cache_size (run_ops L ops s) = abi_cache_size s"
    using assms(2) by (rule run_ops_cache_ok)
  then show ?thesis
    using get_abi_serializer_evictions [of "run_ops L ops s" L n] by (simp add: cache_ok_def)
qed


lemma get_abi_serializer_frame:
  "elastic_client (snd (get_abi_serializer L n s)) = elastic_client s"
  "abi_cache_size (snd (get_abi_serializer L n s)) = abi_cache_size s"
  "clock (snd (get_abi_serializer L n s)) = clock s"
  using get_abi_serializer_appends [of s L n]
  by (simp_all add: get_abi_serializer_client appends_def same_config_def)

lemma get_abi_serializer_miss:
  assumes "good n" "n \<noteq> system_account_name" "cache_find n (abi_cache_index s) = None"
    "account_hits s n = [d]" "get_key (doc_source d) ''abi'' = Some (Abi_def_v abi)" "set_abi L abi"
  shows "abi_cache_index (snd (get_abi_serializer L n s)) =
     cache_insert \<lparr>cache_account = n, last_accessed = clock s (ticks s),
         serializer = Some \<lparr>serializer_abi = abi, specialized_unpack = []\<rparr>\<rparr>
       (abi_cache_index (purge_abi_cache s))"
    and "ticks (snd (get_abi_serializer L n s)) = Suc (ticks s)"
    and "fst (get_abi_serializer L n s) = Some \<lparr>serializer_abi = abi, specialized_unpack = []\<rparr>"
proof -
  have "search_abi_by_account n s =
      (Returned (Some (Abi_def_v abi)),
       s\<lparr>effects := effects s @ [Search accounts_type (Term_query ''name'' (Name_v n))]\<rparr>)"
    using assms(4,5)
    by (simp add: search_abi_by_account_def find_account_eq account_hits_def account_query_def
        hit_of_keys)
  then show "abi_cache_index (snd (get_abi_serializer L n s)) =
     cache_insert \<lparr>cache_account = n, last_accessed = clock s (ticks s),
         serializer = Some \<lparr>serializer_abi = abi, specialized_unpack = []\<rparr>\<rparr>
       (abi_cache_index (purge_abi_cache s))"
    and "ticks (snd (get_abi_serializer L n s)) = Suc (ticks s)"
    and "fst (get_abi_serializer L n s) = Some \<lparr>serializer_abi = abi, specialized_unpack = []\<rparr>"
    using assms(1,2,3,6)
    by (simp_all add: get_abi_serializer_def Let_def time_point_now_def purge_abi_cache_def
        split: list.splits)
qed

lemma get_abi_serializer_hit:
  assumes "good n" "cache_find n (abi_cache_index s) = Some e"
  shows "abi_cache_index (snd (get_abi_serializer L n s)) =
     cache_modify n (clock s (ticks s)) (abi_cache_index s)"
    and "ticks (snd (get_abi_serializer L n s)) = Suc (ticks s)"
    and "fst (get_abi_serializer L n s) = serializer e"
  using assms by (simp_all add: get_abi_serializer_def time_point_now_def)

lemma names_good:
  "good alice" "good bob" "good carol"
  "bob \<noteq> system_account_name" "carol \<noteq> system_account_name"
  "alice \<noteq> bob" "alice \<noteq> carol" "bob \<noteq> carol"
  by (simp_all add: good_def alice_def bob_def carol_def system_account_name_def)

lemma abi_documents_hits:
  assumes "elastic_client s = abi_documents"
  shows "account_hits s alice = [docs abi_documents ! 0]"
    and "account_hits s bob = [docs abi_documents ! 1]"
    and "account_hits s carol = [docs abi_documents ! 2]"
    and "get_key (doc_source (docs abi_documents ! 0)) ''abi'' = Some (Abi_def_v example_abi)"
    and "get_key (doc_source (docs abi_documents ! 1)) ''abi'' = Some (Abi_def_v example_abi)"
    and "get_key (doc_source (docs abi_documents ! 2)) ''abi'' = Some (Abi_def_v example_abi)"
  using names_good(6,7,8)
  by (auto simp: account_hits_def account_query_def hits_of_def assms abi_documents_def)

text \<open>
  The cache of capacity 2 through the lookups of alice, bob, alice and carol, each entry
  with its time of last access: the second lookup of alice moves her entry behind the one
  of bob, and the lookup of carol evicts bob, who was cached after alice but accessed less
  recently.
\<close>

lemma eviction_example:
  "map (\<lambda>e. (cache_account e, last_accessed e))
     (abi_cache_index (run_ops example_lib three_lookups capacity_two)) =
   [(bob, 2000), (alice, 3000)]"
  "map (\<lambda>e. (cache_account e, last_accessed e))
     (abi_cache_index (snd (get_abi_serializer example_lib carol
        (run_ops example_lib three_lookups capacity_two)))) =
   [(alice, 3000), (carol, 4000)]"
proof -
  define s1 where "s1 = snd (get_abi_serializer example_lib alice capacity_two)"
  define s2 where "s2 = snd (get_abi_serializer example_lib bob s1)"
  define s3 where "s3 = snd (get_abi_serializer example_lib alice s2)"
  define s4 where "s4 = snd (get_abi_serializer example_lib carol s3)"
  define ser where "ser = Some \<lparr>serializer_abi = example_abi, specialized_unpack = []\<rparr>"
  note frame = get_abi_serializer_frame
  have ok: "set_abi example_lib example_abi"
    by (simp add: example_lib_def)
  have c0: "elastic_client capacity_two = abi_documents" "abi_cache_index capacity_two = []"
    "abi_cache_size capacity_two = 2" "clock capacity_two = (\<lambda>n. 1000 * int n)"
    "ticks capacity_two = 1"
    by (simp_all add: capacity_two_def initial_impl_def)
  have f1: "elastic_client s1 = abi_documents" "abi_cache_size s1 = 2"
    "clock s1 = (\<lambda>n. 1000 * int n)"
    by (simp_all add: s1_def frame c0)
  have t1: "ticks s1 = 2" and c1: "abi_cache_index s1 =
      [\<lparr>cache_account = alice, last_accessed = 1000, serializer = ser\<rparr>]"
    using get_abi_serializer_miss(1,2) [OF names_good(1) alice_not_system(1) _
        abi_documents_hits(1) [OF c0(1)] abi_documents_hits(4) [OF c0(1)] ok]
    by (simp_all add: s1_def c0 cache_find_def purge_abi_cache_def cache_insert_def ser_def)
  have f2: "elastic_client s2 = abi_documents" "abi_cache_size s2 = 2"
    "clock s2 = (\<lambda>n. 1000 * int n)"
    by (simp_all add: s2_def frame f1)
  have t2: "ticks s2 = 3" and c2: "abi_cache_index s2 =
      [\<lparr>cache_account = alice, last_accessed = 1000, serializer = ser\<rparr>,
       \<lparr>cache_account = bob, last_accessed = 2000, serializer = ser\<rparr>]"
    using get_abi_serializer_miss(1,2) [OF names_good(2) names_good(4) _
        abi_documents_hits(2) [OF f1(1)] abi_documents_hits(5) [OF f1(1)] ok]
    by (simp_all add: s2_def f1 t1 c1 cache_find_def purge_abi_cache_def cache_insert_def ser_def
        names_good(6))
  have f3: "elastic_client s3 = abi_documents" "abi_cache_size s3 = 2"
    "clock s3 = (\<lambda>n. 1000 * int n)"
    by (simp_all add: s3_def frame f2)
  have t3: "ticks s3 = 4" and c3: "abi_cache_index s3 =
      [\<lparr>cache_account = bob, last_accessed = 2000, serializer = ser\<rparr>,
       \<lparr>cache_account = alice, last_accessed = 3000, serializer = ser\<rparr>]"
    using get_abi_serializer_hit(1,2) [where n = alice and s = s2 and L = example_lib
        and e = "\<lparr>cache_account = alice, last_accessed = 1000, serializer = ser\<rparr>"]
    by (simp_all add: s3_def f2 t2 c2 cache_find_def cache_modify_def names_good(1,6))
  have c4: "abi_cache_index s4 =
      [\<lparr>cache_account = alice, last_accessed = 3000, serializer = ser\<rparr>,
       \<lparr>cache_account = carol, last_accessed = 4000, serializer = ser\<rparr>]"
    using get_abi_serializer_miss(1) [OF names_good(3) names_good(5) _
        abi_documents_hits(3) [OF f3(1)] abi_documents_hits(6) [OF f3(1)] ok]
    by (simp add: s4_def f3 t3 c3 cache_find_def purge_abi_cache_def cache_insert_def ser_def
        names_good(7,8) names_good(7,8) [symmetric])
  have run: "run_ops example_lib three_lookups capacity_two = s3"
    by (simp add: run_ops_def three_lookups_def s3_def s2_def s1_def)
  show "map (\<lambda>e. (cache_account e, last_accessed e))
     (abi_cache_index (run_ops example_lib three_lookups capacity_two)) =
   [(bob, 2000), (alice, 3000)]"
    by (simp add: run c3)
  show "map (\<lambda>e. (cache_account e, last_accessed e))
     (abi_cache_index (snd (get_abi_serializer example_lib carol
        (run_ops example_lib three_lookups capacity_two)))) =
   [(alice, 3000), (carol, 4000)]"
    by (simp add: run s4_def [symmetric] c4)
qed

text \<open>
  The bound and the eviction rule at that cache of capacity 2, where the entry evicted is
  neither the first cached nor the last accessed; and the bound for the configured
  capacity.
\<close>

theorem abi_cache_bounded_lru_witness:
  "abi_cache_index capacity_two = [] \<and> 0 < abi_cache_size capacity_two \<and>
   length (abi_cache_index (run_ops example_lib three_lookups capacity_two)) \<le> 2 \<and>
   evictions_lru (run_ops example_lib three_lookups capacity_two)
     (snd (get_abi_serializer example_lib carol
        (run_ops example_lib three_lookups capacity_two))) \<and>
   map (\<lambda>e. (cache_account e, last_accessed e))
     (abi_cache_index (run_ops example_lib three_lookups capacity_two)) =
     [(bob, 2000), (alice, 3000)] \<and>
   map (\<lambda>e. (cache_account e, last_accessed e))
     (abi_cache_index (snd (get_abi_serializer example_lib carol
        (run_ops example_lib three_lookups capacity_two)))) =
     [(alice, 3000), (carol, 4000)] \<and>
   abi_cache_index initial_impl = [] \<and> abi_cache_size initial_impl = 2048 \<and>
   length (abi_cache_index (run_ops example_lib three_lookups initial_impl)) \<le> 2048"
proof -
  have c: "abi_cache_index capacity_two = []" "0 < abi_cache_size capacity_two"
    "abi_cache_size capacity_two = 2"
    by (simp_all add: capacity_two_def initial_impl_def)
  have i: "abi_cache_index initial_impl = []" "0 < abi_cache_size initial_impl"
    "abi_cache_size initial_impl = 2048"
    by (simp_all add: initial_impl_def)
  show ?thesis
    using c i abi_cache_bounded_lru [OF c(1,2), of example_lib three_lookups carol]
      abi_cache_bounded_lru [OF i(1,2), of example_lib three_lookups carol]
      eviction_example
    by simp
qed

section \<open>Cached accounts with several documents\<close>

lemma cached_then_duplicated_state:
  "abi_cache_index cached_then_duplicated =
     [\<lparr>cache_account = alice, last_accessed = 1000,
       serializer = Some \<lparr>serializer_abi = example_abi, specialized_unpack = []\<rparr>\<rparr>]"
  "account_hits cached_then_duplicated alice =
     [\<lparr>doc_type = accounts_type, doc_id = ''a'',
       doc_source = Object_v [(''name'', Name_v alice), (''createAt'', Int_v 1),
         (''abi'', Abi_def_v example_abi)]\<rparr>,
      \<lparr>doc_type = accounts_type, doc_id = auto_id 0,
       doc_source = Object_v [(''name'', Name_v alice), (''createAt'', Int_v 2)]\<rparr>]"
proof -
  define s1 where "s1 = snd (get_abi_serializer example_lib alice with_abis)"
  have c0: "elastic_client with_abis = abi_documents" "abi_cache_index with_abis = []"
    "abi_cache_size with_abis = 2048" "clock with_abis = (\<lambda>n. 1000 * int n)"
    "ticks with_abis = 1"
    by (simp_all add: with_abis_def initial_impl_def)
  have ok: "set_abi example_lib example_abi"
    by (simp add: example_lib_def)
  have f1: "elastic_client s1 = abi_documents" "clock s1 = (\<lambda>n. 1000 * int n)"
    by (simp_all add: s1_def get_abi_serializer_frame c0)
  have t1: "ticks s1 = 2" and c1: "abi_cache_index s1 =
      [\<lparr>cache_account = alice, last_accessed = 1000,
        serializer = Some \<lparr>serializer_abi = example_abi, specialized_unpack = []\<rparr>\<rparr>]"
    using get_abi_serializer_miss(1,2) [OF names_good(1) alice_not_system(1) _
        abi_documents_hits(1) [OF c0(1)] abi_documents_hits(4) [OF c0(1)] ok]
    by (simp_all add: s1_def c0 cache_find_def purge_abi_cache_def cache_insert_def)
  have s2: "cached_then_duplicated = update_account example_lib newaccount_action s1"
    by (simp add: cached_then_duplicated_def s1_def)
  show "abi_cache_index cached_then_duplicated =
     [\<lparr>cache_account = alice, last_accessed = 1000,
       serializer = Some \<lparr>serializer_abi = example_abi, specialized_unpack = []\<rparr>\<rparr>]"
    by (simp add: s2 update_account_def Let_def case_prod_beta newaccount_action_def
        example_lib_def c1)
  have "docs (elastic_client cached_then_duplicated) =
      docs abi_documents @
        [\<lparr>doc_type = accounts_type, doc_id = auto_id 0,
          doc_source = Object_v [(''name'', Name_v alice), (''createAt'', Int_v 2)]\<rparr>,
         \<lparr>doc_type = pub_keys_type, doc_id = auto_id 1,
          doc_source = Object_v [(''account'', Name_v alice), (''public_key'', String_v ''K1''),
            (''permission'', Name_v owner_name), (''createAt'', Int_v 2)]\<rparr>,
         \<lparr>doc_type = account_controls_type, doc_id = auto_id 2,
          doc_source = Object_v [(''controlled_account'', Name_v alice),
            (''controlled_permission'', Name_v owner_name),
            (''controlling_account'', Name_v bob), (''createAt'', Int_v 2)]\<rparr>,
         \<lparr>doc_type = pub_keys_type, doc_id = auto_id 3,
          doc_source = Object_v [(''account'', Name_v alice), (''public_key'', String_v ''K2''),
            (''permission'', Name_v active_name), (''createAt'', Int_v 2)]\<rparr>]"
    by (simp add: s2 update_account_def Let_def case_prod_beta newaccount_action_def
        example_lib_def now_milliseconds_def time_point_now_def to_milliseconds_def
        create_account_def add_pub_keys_def add_account_control_def es_index_def
        es_bulk_perform_def client_index_def client_bulk_def f1 t1 abi_documents_def numeral_2_eq_2 numeral_3_eq_3)
  then show "account_hits cached_then_duplicated alice =
     [\<lparr>doc_type = accounts_type, doc_id = ''a'',
       doc_source = Object_v [(''name'', Name_v alice), (''createAt'', Int_v 1),
         (''abi'', Abi_def_v example_abi)]\<rparr>,
      \<lparr>doc_type = accounts_type, doc_id = auto_id 0,
       doc_source = Object_v [(''name'', Name_v alice), (''createAt'', Int_v 2)]\<rparr>]"
    using names_good(6,7)
    by (auto simp: account_hits_def account_query_def hits_of_def abi_documents_def
        accounts_type_def pub_keys_type_def account_controls_type_def)
qed

text \<open>
  C10 as stated fails for a cached account. After a lookup of alice, which caches her
  serializer, and a second \<^verbatim>\<open>newaccount\<close> for alice, the store holds two \<^verbatim>\<open>accounts\<close>
  documents with her name and \<^verbatim>\<open>find_account\<close> returns false, yet \<^verbatim>\<open>get_abi_serializer\<close>
  yields the cached serializer.
\<close>

theorem cached_account_keeps_serializer:
  "length (account_hits cached_then_duplicated alice) = 2 \<and>
   fst (find_account alice cached_then_duplicated) = Returned None \<and>
   fst (search_abi_by_account alice cached_then_duplicated) = Returned None \<and>
   fst (get_abi_serializer example_lib alice cached_then_duplicated) =
     Some \<lparr>serializer_abi = example_abi, specialized_unpack = []\<rparr>"
proof -
  have two: "length (account_hits cached_then_duplicated alice) = 2"
    by (simp add: cached_then_duplicated_state(2))
  have "cache_find alice (abi_cache_index cached_then_duplicated) =
      Some \<lparr>cache_account = alice, last_accessed = 1000,
        serializer = Some \<lparr>serializer_abi = example_abi, specialized_unpack = []\<rparr>\<rparr>"
    by (simp add: cached_then_duplicated_state(1) cache_find_def)
  from get_abi_serializer_hit(3) [OF names_good(1) this]
  show ?thesis
    using two search_abi_by_account_fst [of cached_then_duplicated alice]
    by (simp add: find_account_fst)
qed

end
